theory Spec2Isabelle
  imports Complex_Main
begin

unbundle bit_operations_syntax

section \<open>JavaScript numbers\<close>

text \<open>
  Every number of the driver is an IEEE double.  Finite values are idealised as reals
  (rounding is not modelled); the special values are kept, since the driver divides without
  checking the divisor: \<open>Num 0\<close> is \<open>+0\<close>, \<open>NegZero\<close> is \<open>-0\<close>.
\<close>

datatype jsnum = Num real | NegZero | PInf | NInf | NaN

fun js_val :: "jsnum \<Rightarrow> real" where
  "js_val (Num a) = a"
| "js_val _ = 0"

fun js_negative :: "jsnum \<Rightarrow> bool" where
  "js_negative (Num a) = (a < 0)"
| "js_negative NegZero = True"
| "js_negative NInf = True"
| "js_negative _ = False"

fun js_is_zero :: "jsnum \<Rightarrow> bool" where
  "js_is_zero (Num a) = (a = 0)"
| "js_is_zero NegZero = True"
| "js_is_zero _ = False"

fun js_is_inf :: "jsnum \<Rightarrow> bool" where
  "js_is_inf PInf = True"
| "js_is_inf NInf = True"
| "js_is_inf _ = False"

definition js_zero :: "bool \<Rightarrow> jsnum" where
  "js_zero neg = (if neg then NegZero else Num 0)"

definition js_inf :: "bool \<Rightarrow> jsnum" where
  "js_inf neg = (if neg then NInf else PInf)"

text \<open>\<open>x + y\<close>\<close>

definition js_add :: "jsnum \<Rightarrow> jsnum \<Rightarrow> jsnum" where
  "js_add x y =
     (if x = NaN \<or> y = NaN then NaN
      else if js_is_inf x \<and> js_is_inf y then (if x = y then x else NaN)
      else if js_is_inf x then x
      else if js_is_inf y then y
      else if x = NegZero \<and> y = NegZero then NegZero
      else Num (js_val x + js_val y))"

text \<open>\<open>x * y\<close>\<close>

definition js_mul :: "jsnum \<Rightarrow> jsnum \<Rightarrow> jsnum" where
  "js_mul x y =
     (if x = NaN \<or> y = NaN then NaN
      else if (js_is_inf x \<and> js_is_zero y) \<or> (js_is_zero x \<and> js_is_inf y) then NaN
      else if js_is_inf x \<or> js_is_inf y then js_inf (js_negative x \<noteq> js_negative y)
      else if js_is_zero x \<or> js_is_zero y then js_zero (js_negative x \<noteq> js_negative y)
      else Num (js_val x * js_val y))"

text \<open>\<open>x / y\<close>\<close>

definition js_div :: "jsnum \<Rightarrow> jsnum \<Rightarrow> jsnum" where
  "js_div x y =
     (if x = NaN \<or> y = NaN then NaN
      else if (js_is_inf x \<and> js_is_inf y) \<or> (js_is_zero x \<and> js_is_zero y) then NaN
      else if js_is_inf x \<or> js_is_zero y then js_inf (js_negative x \<noteq> js_negative y)
      else if js_is_inf y \<or> js_is_zero x then js_zero (js_negative x \<noteq> js_negative y)
      else Num (js_val x / js_val y))"

text \<open>\<open>Math.abs(x)\<close>\<close>

fun js_abs :: "jsnum \<Rightarrow> jsnum" where
  "js_abs (Num a) = Num \<bar>a\<bar>"
| "js_abs NegZero = Num 0"
| "js_abs PInf = PInf"
| "js_abs NInf = PInf"
| "js_abs NaN = NaN"

text \<open>\<open>x >= y\<close>: false as soon as one side is \<open>NaN\<close>.\<close>

definition js_ge :: "jsnum \<Rightarrow> jsnum \<Rightarrow> bool" where
  "js_ge x y =
     (x \<noteq> NaN \<and> y \<noteq> NaN \<and>
      (x = PInf \<or> y = NInf \<or>
       (\<not> js_is_inf x \<and> \<not> js_is_inf y \<and> js_val y \<le> js_val x)))"

text \<open>\<open>x === y\<close> on numbers: \<open>+0\<close> and \<open>-0\<close> are equal, \<open>NaN\<close> equals nothing.\<close>

definition js_eq :: "jsnum \<Rightarrow> jsnum \<Rightarrow> bool" where
  "js_eq x y = (x \<noteq> NaN \<and> y \<noteq> NaN \<and> (x = y \<or> (js_is_zero x \<and> js_is_zero y)))"

text \<open>Truthiness of a number, as \<open>||\<close> tests it.\<close>

definition js_truthy :: "jsnum \<Rightarrow> bool" where
  "js_truthy x = (x \<noteq> NaN \<and> \<not> js_is_zero x)"

text \<open>
  The bitwise operators convert their operands to 32-bit signed integers and give a
  32-bit signed integer.
\<close>

definition toInt32 :: "int \<Rightarrow> int" where
  "toInt32 x = signed_take_bit 31 x"

definition js_shl :: "int \<Rightarrow> nat \<Rightarrow> int" where
  "js_shl x n = toInt32 (push_bit (n mod 32) (toInt32 x))"

definition js_or :: "int \<Rightarrow> int \<Rightarrow> int" where
  "js_or x y = toInt32 x OR toInt32 y"

definition js_and :: "int \<Rightarrow> int \<Rightarrow> int" where
  "js_and x y = toInt32 x AND toInt32 y"

definition js_xor :: "int \<Rightarrow> int \<Rightarrow> int" where
  "js_xor x y = toInt32 x XOR toInt32 y"

section \<open>The driver's state and its environment\<close>

text \<open>
  The three static enums of the class are three distinct objects, compared by identity.
\<close>

datatype gain = CHANNEL_A_GAIN_128 | CHANNEL_B_GAIN_32 | CHANNEL_A_GAIN_64

text \<open>
  The environment is what the pins, the clock and the scheduler answer.  The driver is
  sequential, so one run is fixed by the sequence of levels that the successive calls of
  \<open>__dataPin.digitalRead()\<close> return (\<open>True\<close> is level 1) and the sequence of
  values that the successive calls of \<open>microtime.now()\<close> return.
\<close>

record device =
  dataLevel :: "nat \<Rightarrow> bool"
  microtime :: "nat \<Rightarrow> int"

text \<open>What the driver does to the outside: clock writes, sleeps and console output.\<close>

datatype event =
    ClockWrite bool
  | Msleep nat
  | LogSlow int
  | LogInvalid int

text \<open>
  The object: its four fields, the number of reads of the data pin and of the clock made so
  far, and the events issued so far (oldest first).
\<close>

record hx711 =
  offset :: jsnum
  scale :: jsnum
  latestReading :: jsnum
  channelGain :: gain
  dataReads :: nat
  timeReads :: nat
  events :: "event list"

definition emit :: "event \<Rightarrow> hx711 \<Rightarrow> hx711" where
  "emit e s = s\<lparr>events := events s @ [e]\<rparr>"

definition clockWrite :: "bool \<Rightarrow> hx711 \<Rightarrow> hx711" where
  "clockWrite level s = emit (ClockWrite level) s"

definition msleep :: "nat \<Rightarrow> hx711 \<Rightarrow> hx711" where
  "msleep ms s = emit (Msleep ms) s"

definition digitalRead :: "device \<Rightarrow> hx711 \<Rightarrow> bool \<times> hx711" where
  "digitalRead dev s = (dataLevel dev (dataReads s), s\<lparr>dataReads := Suc (dataReads s)\<rparr>)"

definition now :: "device \<Rightarrow> hx711 \<Rightarrow> int \<times> hx711" where
  "now dev s = (microtime dev (timeReads s), s\<lparr>timeReads := Suc (timeReads s)\<rparr>)"

text \<open>\<open>__isReady\<close>: the data line at level 0.\<close>

definition isReady :: "device \<Rightarrow> hx711 \<Rightarrow> bool \<times> hx711" where
  "isReady dev s = (let (level, s1) = digitalRead dev s in (\<not> level, s1))"

text \<open>
  The timed clock pulse that \<open>__setChannelGain\<close> and \<open>__readRaw\<close> both write out:
  start the timer, clock high, clock low, stop the timer; the value is \<open>timeElapsed\<close>.
\<close>

definition timedPulse :: "device \<Rightarrow> hx711 \<Rightarrow> int \<times> hx711" where
  "timedPulse dev s =
     (let (startCounter, s1) = now dev s;
          s2 = clockWrite True s1;
          s3 = clockWrite False s2;
          (endCounter, s4) = now dev s3
      in (endCounter - startCounter, s4))"

section \<open>\<open>__setChannelGain\<close>\<close>

definition timesToPulse :: "gain \<Rightarrow> bool \<Rightarrow> nat" where
  "timesToPulse g isInit =
     (if g = CHANNEL_A_GAIN_64 then 3 else if g = CHANNEL_B_GAIN_32 then 2 else 1)
       + (if isInit then 24 else 0)"

text \<open>
  The loop \<open>while (isInit && !this.__isReady()) sleep.msleep(1)\<close> for a true
  \<open>isInit\<close>.  It has no bound: \<open>None\<close> is the loop that never ends.
\<close>

partial_function (option) waitUntilReady :: "device \<Rightarrow> hx711 \<Rightarrow> hx711 option" where
  "waitUntilReady dev s =
     (let (ready, s1) = isReady dev s
      in if ready then Some s1 else waitUntilReady dev (msleep 1 s1))"

text \<open>
  The \<open>for\<close> loop of \<open>__setChannelGain\<close>, entered with the bound \<open>n\<close> and the
  counter \<open>timesPulsed\<close>.  A pulse of 60 microseconds or more returns the recursive call
  \<open>this.__setChannelGain(channelGain, true)\<close>, which is written out here: the bound of a
  true \<open>isInit\<close>, the wait for readiness, and the loop again from 0.
\<close>

partial_function (option) pulseLoop ::
  "device \<Rightarrow> gain \<Rightarrow> nat \<Rightarrow> nat \<Rightarrow> hx711 \<Rightarrow> (bool \<times> hx711) option" where
  "pulseLoop dev g n timesPulsed s =
     (if timesPulsed < n then
        (let (timeElapsed, s1) = timedPulse dev s
         in if timeElapsed \<ge> 60 then
              (case waitUntilReady dev (emit (LogSlow timeElapsed) s1) of
                 None \<Rightarrow> None
               | Some s2 \<Rightarrow> pulseLoop dev g (timesToPulse g True) 0 s2)
            else pulseLoop dev g n (timesPulsed + 1) s1)
      else Some (True, s))"

definition setChannelGain :: "device \<Rightarrow> gain \<Rightarrow> bool \<Rightarrow> hx711 \<Rightarrow> (bool \<times> hx711) option" where
  "setChannelGain dev g isInit s =
     (case (if isInit then waitUntilReady dev s else Some s) of
        None \<Rightarrow> None
      | Some s1 \<Rightarrow> pulseLoop dev g (timesToPulse g isInit) 0 s1)"

section \<open>\<open>__readRaw\<close>\<close>

text \<open>
  \<open>__readRaw\<close> returns \<open>false\<close> at three places; the model records which one.
\<close>

datatype failure = NotReady | TimingViolation | InvalidData

text \<open>
  The readiness loop: \<open>True\<close> when the device was seen ready, \<open>False\<close> when the
  loop returned \<open>false\<close> from \<open>__readRaw\<close>.
\<close>

function waitReady :: "device \<Rightarrow> nat \<Rightarrow> hx711 \<Rightarrow> bool \<times> hx711" where
  "waitReady dev attemptsCounter s =
     (let (ready, s1) = isReady dev s
      in if ready then (True, s1)
         else (let s2 = msleep 1 s1
               in if attemptsCounter \<ge> 9999 then (False, s2)
                  else waitReady dev (attemptsCounter + 1) s2))"
  by pat_completeness auto
termination
  by (relation "measure (\<lambda>(dev, attemptsCounter, s). 9999 - attemptsCounter)") auto

declare waitReady.simps [simp del]

text \<open>
  The 24 data pulses: \<open>None\<close> when a pulse took 60 microseconds or more, else the bits
  shifted into \<open>data_in\<close>.
\<close>

function shiftBits :: "device \<Rightarrow> nat \<Rightarrow> int \<Rightarrow> hx711 \<Rightarrow> int option \<times> hx711" where
  "shiftBits dev i data_in s =
     (if i < 24 then
        (let (timeElapsed, s1) = timedPulse dev s
         in if timeElapsed \<ge> 60 then (None, emit (LogSlow timeElapsed) s1)
            else (let (level, s2) = digitalRead dev s1
                  in shiftBits dev (i + 1) (js_or (js_shl data_in 1) (of_bool level)) s2))
      else (Some data_in, s))"
  by pat_completeness auto
termination
  by (relation "measure (\<lambda>(dev, i, data_in, s). 24 - i)") auto

declare shiftBits.simps [simp del]

text \<open>The validity check and the conversion from two's complement.\<close>

definition decode :: "int \<Rightarrow> failure + int" where
  "decode data_in =
     (if data_in = 0x7fffff \<or> data_in = 0x800000 then Inl InvalidData
      else if js_and data_in 0x800000 \<noteq> 0 then Inr (- 1 * (js_xor data_in 0xffffff + 1))
      else Inr data_in)"

definition readRaw :: "device \<Rightarrow> hx711 \<Rightarrow> ((failure + int) \<times> hx711) option" where
  "readRaw dev s =
     (let (ready, s1) = waitReady dev 0 (clockWrite False s)
      in if \<not> ready then Some (Inl NotReady, s1)
         else
           (case shiftBits dev 0 0 s1 of
              (None, s2) \<Rightarrow> Some (Inl TimingViolation, s2)
            | (Some data_in, s2) \<Rightarrow>
                (case setChannelGain dev (channelGain s2) False s2 of
                   None \<Rightarrow> None
                 | Some (_, s3) \<Rightarrow>
                     (let s4 = msleep 1 s3
                      in case decode data_in of
                           Inl e \<Rightarrow> Some (Inl e, emit (LogInvalid data_in) s4)
                         | Inr signed_data \<Rightarrow> Some (Inr signed_data, s4)))))"

section \<open>Averaging and calibration\<close>

text \<open>The loop \<open>while (result === false) result = this.__readRaw()\<close>.\<close>

partial_function (option) readUntilSample :: "device \<Rightarrow> hx711 \<Rightarrow> (int \<times> hx711) option" where
  "readUntilSample dev s =
     (case readRaw dev s of
        None \<Rightarrow> None
      | Some (Inl e, s1) \<Rightarrow> readUntilSample dev s1
      | Some (Inr result, s1) \<Rightarrow> Some (result, s1))"

text \<open>The \<open>for\<close> loop of \<open>__readRawAverage\<close>; \<open>numberOfTimes\<close> is an integer and \<open>sumAcc\<close>
  is the variable \<open>sum\<close>.\<close>

function readLoop :: "device \<Rightarrow> int \<Rightarrow> int \<Rightarrow> int \<Rightarrow> hx711 \<Rightarrow> (int \<times> hx711) option" where
  "readLoop dev numberOfTimes i sumAcc s =
     (if i < numberOfTimes then
        (case readUntilSample dev s of
           None \<Rightarrow> None
         | Some (result, s1) \<Rightarrow> readLoop dev numberOfTimes (i + 1) (sumAcc + result) s1)
      else Some (sumAcc, s))"
  by pat_completeness auto
termination
  by (relation "measure (\<lambda>(dev, numberOfTimes, i, sumAcc, s). nat (numberOfTimes - i))") auto

declare readLoop.simps [simp del]

definition readRawAverage :: "device \<Rightarrow> int \<Rightarrow> hx711 \<Rightarrow> (jsnum \<times> hx711) option" where
  "readRawAverage dev numberOfTimes s =
     (let n = (if numberOfTimes < 0 then 1 else numberOfTimes)
      in case readLoop dev n 0 0 s of
           None \<Rightarrow> None
         | Some (sumAcc, s1) \<Rightarrow> Some (js_div (Num (of_int sumAcc)) (Num (of_int n)), s1))"

definition applyNormalisation :: "hx711 \<Rightarrow> jsnum \<Rightarrow> jsnum" where
  "applyNormalisation s rawValue = js_div (js_add rawValue (offset s)) (scale s)"

definition tare :: "device \<Rightarrow> hx711 \<Rightarrow> (bool \<times> hx711) option" where
  "tare dev s =
     (case readRawAverage dev 10 s of
        None \<Rightarrow> None
      | Some (avg, s1) \<Rightarrow> Some (True, s1\<lparr>offset := js_mul (Num (- 1)) avg\<rparr>))"

definition calibrateScale :: "device \<Rightarrow> jsnum \<Rightarrow> hx711 \<Rightarrow> (jsnum \<times> hx711) option" where
  "calibrateScale dev knownWeight s =
     (case readRawAverage dev 5 s of
        None \<Rightarrow> None
      | Some (avg, s1) \<Rightarrow>
          (let s2 = s1\<lparr>scale := js_div (js_add avg (offset s1)) knownWeight\<rparr>
           in Some (scale s2, s2)))"

definition readAverage :: "device \<Rightarrow> int \<Rightarrow> hx711 \<Rightarrow> (jsnum \<times> hx711) option" where
  "readAverage dev numberOfTimes s =
     (case readRawAverage dev numberOfTimes s of
        None \<Rightarrow> None
      | Some (avg, s1) \<Rightarrow>
          (let s2 = s1\<lparr>latestReading := applyNormalisation s1 avg\<rparr>
           in Some (latestReading s2, s2)))"

definition read :: "device \<Rightarrow> hx711 \<Rightarrow> (jsnum \<times> hx711) option" where
  "read dev s = readAverage dev 1 s"

section \<open>Initialisation\<close>

text \<open>The loop \<open>while (Math.abs(this.read()) >= 0.5) this.tare()\<close> of \<open>__begin\<close>.\<close>

partial_function (option) taringLoop :: "device \<Rightarrow> hx711 \<Rightarrow> (bool \<times> hx711) option" where
  "taringLoop dev s =
     (case read dev s of
        None \<Rightarrow> None
      | Some (reading, s1) \<Rightarrow>
          if js_ge (js_abs reading) (Num (1 / 2)) then
            (case tare dev s1 of
               None \<Rightarrow> None
             | Some (_, s2) \<Rightarrow> taringLoop dev s2)
          else Some (True, s1))"

text \<open>\<open>__begin\<close>; the call of \<open>__setChannelGain\<close> passes no \<open>isInit\<close>.\<close>

definition hx_begin :: "device \<Rightarrow> hx711 \<Rightarrow> (bool \<times> hx711) option" where
  "hx_begin dev s =
     (case (if channelGain s \<noteq> CHANNEL_A_GAIN_128
            then setChannelGain dev (channelGain s) False s else Some (True, s)) of
        None \<Rightarrow> None
      | Some (_, s1) \<Rightarrow> taringLoop dev s1)"

text \<open>
  The constructor, with its optional arguments \<open>scale\<close> and \<open>channelGain\<close>; opening
  the two pins issues no event of the model.
\<close>

definition constructed :: "jsnum option \<Rightarrow> gain option \<Rightarrow> hx711" where
  "constructed scaleArg gainArg =
     \<lparr>offset = Num 0,
      scale = (case scaleArg of None \<Rightarrow> Num 35
               | Some x \<Rightarrow> if js_truthy x then x else Num 35),
      latestReading = Num (- 1337),
      channelGain = (case gainArg of None \<Rightarrow> CHANNEL_A_GAIN_128 | Some g \<Rightarrow> g),
      dataReads = 0, timeReads = 0, events = []\<rparr>"

definition new_HX711 :: "device \<Rightarrow> jsnum option \<Rightarrow> gain option \<Rightarrow> (bool \<times> hx711) option" where
  "new_HX711 dev scaleArg gainArg = hx_begin dev (constructed scaleArg gainArg)"

section \<open>Notions used to state the properties\<close>

subsection \<open>What an operation has done to the outside\<close>

text \<open>
  \<open>advance d t es s\<close> is \<open>s\<close> after \<open>d\<close> more reads of the data pin, \<open>t\<close> more
  reads of the clock and the events \<open>es\<close>; the four fields of the object are as in \<open>s\<close>.
  \<open>ioOnly s s'\<close> holds when \<open>s'\<close> is such a state.
\<close>

definition advance :: "nat \<Rightarrow> nat \<Rightarrow> event list \<Rightarrow> hx711 \<Rightarrow> hx711" where
  "advance d t es s =
     s\<lparr>dataReads := dataReads s + d, timeReads := timeReads s + t, events := events s @ es\<rparr>"

definition ioOnly :: "hx711 \<Rightarrow> hx711 \<Rightarrow> bool" where
  "ioOnly s s' = (\<exists>d t es. s' = advance d t es s)"

text \<open>The events of \<open>n\<close> clock pulses.\<close>

definition pulses :: "nat \<Rightarrow> event list" where
  "pulses n = concat (replicate n [ClockWrite True, ClockWrite False])"

text \<open>
  The \<open>n\<close> pulses timed from the \<open>t\<close>-th read of the clock on each take less than 60
  microseconds; \<open>steadyClock\<close>: every pulse does.
\<close>

definition fastPulses :: "device \<Rightarrow> nat \<Rightarrow> nat \<Rightarrow> bool" where
  "fastPulses dev t n =
     (\<forall>k<n. microtime dev (t + 2 * k + 1) - microtime dev (t + 2 * k) < 60)"

definition steadyClock :: "device \<Rightarrow> bool" where
  "steadyClock dev = (\<forall>t. microtime dev (Suc t) - microtime dev t < 60)"

subsection \<open>The samples a device holds\<close>

text \<open>
  \<open>shiftIn dev j m acc\<close> shifts the \<open>m\<close> levels read from the \<open>j\<close>-th read on into
  \<open>acc\<close>, most significant bit first; \<open>pattern dev j\<close> is the 24-bit pattern that starts
  at the \<open>j\<close>-th read, and \<open>signed24\<close> its value in two's complement.
\<close>

fun shiftIn :: "device \<Rightarrow> nat \<Rightarrow> nat \<Rightarrow> int \<Rightarrow> int" where
  "shiftIn dev j 0 acc = acc"
| "shiftIn dev j (Suc m) acc = shiftIn dev (Suc j) m (2 * acc + of_bool (dataLevel dev j))"

definition pattern :: "device \<Rightarrow> nat \<Rightarrow> int" where
  "pattern dev j = shiftIn dev j 24 0"

definition signed24 :: "int \<Rightarrow> int" where
  "signed24 P = (if 2 ^ 23 \<le> P then P - 2 ^ 24 else P)"

text \<open>
  A raw read that starts at the \<open>r\<close>-th read of the data pin and finds the line low at
  once uses 25 reads: the poll and the 24 bits.  \<open>sampleOK\<close>: the line is low and the
  pattern is no sentinel; \<open>sampleAt\<close>: the sample then read.  \<open>samplesOK\<close> and
  \<open>sampleSum\<close> speak of \<open>m\<close> such reads in a row.
\<close>

definition sampleOK :: "device \<Rightarrow> nat \<Rightarrow> bool" where
  "sampleOK dev r =
     (\<not> dataLevel dev r \<and> pattern dev (Suc r) \<noteq> 0x7fffff \<and> pattern dev (Suc r) \<noteq> 0x800000)"

definition sampleAt :: "device \<Rightarrow> nat \<Rightarrow> int" where
  "sampleAt dev r = signed24 (pattern dev (Suc r))"

fun samplesOK :: "device \<Rightarrow> nat \<Rightarrow> nat \<Rightarrow> bool" where
  "samplesOK dev r 0 = True"
| "samplesOK dev r (Suc m) = (sampleOK dev r \<and> samplesOK dev (r + 25) m)"

fun sampleSum :: "device \<Rightarrow> nat \<Rightarrow> nat \<Rightarrow> int" where
  "sampleSum dev r 0 = 0"
| "sampleSum dev r (Suc m) = sampleAt dev r + sampleSum dev (r + 25) m"

text \<open>
  The events of one such raw read with gain \<open>g\<close> (clock low, 24 data pulses, the
  configuration pulses, the sleep), the state after one, and the state after \<open>m\<close>.
\<close>

definition rawEvents :: "gain \<Rightarrow> event list" where
  "rawEvents g = ClockWrite False # pulses (24 + timesToPulse g False) @ [Msleep 1]"

definition rawDone :: "hx711 \<Rightarrow> hx711" where
  "rawDone s =
     advance 25 (2 * (24 + timesToPulse (channelGain s) False)) (rawEvents (channelGain s)) s"

definition samplesDone :: "nat \<Rightarrow> hx711 \<Rightarrow> hx711" where
  "samplesDone m s =
     advance (25 * m) (2 * (24 + timesToPulse (channelGain s) False) * m)
       (concat (replicate m (rawEvents (channelGain s)))) s"

text \<open>A number that is neither an infinity nor \<open>NaN\<close>.\<close>

definition js_finite :: "jsnum \<Rightarrow> bool" where
  "js_finite x = (case x of Num a \<Rightarrow> True | NegZero \<Rightarrow> True | _ \<Rightarrow> False)"

subsection \<open>Devices\<close>

text \<open>
  \<open>idleDevice\<close>: always ready, every bit 0.  \<open>busyDevice\<close>: never ready.
  \<open>lateDevice\<close>: ready at the third poll.  \<open>edgeDevice\<close>: ready, and the first pattern
  is \<open>0x800001\<close>.  \<open>slowPulseDevice\<close>: ready, and the first clock pulse takes 60
  microseconds.  \<open>periodicDevice p j\<close>: the line is high at the reads \<open>k\<close> with
  \<open>k mod p = j\<close> only; with \<open>p = 25\<close> every raw read finds the device ready and reads
  the same pattern (1024 for \<open>j = 14\<close>, 8 for \<open>j = 21\<close>), with \<open>p = 275\<close> and
  \<open>j = 14\<close> every eleventh raw read gives 1024 and the others 0.  The clocks of all but
  \<open>slowPulseDevice\<close> stand still.
\<close>

definition idleDevice :: device where
  "idleDevice = \<lparr>dataLevel = (\<lambda>k. False), microtime = (\<lambda>k. 0)\<rparr>"

definition busyDevice :: device where
  "busyDevice = \<lparr>dataLevel = (\<lambda>k. True), microtime = (\<lambda>k. 0)\<rparr>"

definition lateDevice :: device where
  "lateDevice = \<lparr>dataLevel = (\<lambda>k. k < 2), microtime = (\<lambda>k. 0)\<rparr>"

definition edgeDevice :: device where
  "edgeDevice = \<lparr>dataLevel = (\<lambda>k. k = 1 \<or> k = 24), microtime = (\<lambda>k. 0)\<rparr>"

definition slowPulseDevice :: device where
  "slowPulseDevice =
     \<lparr>dataLevel = (\<lambda>k. False), microtime = (\<lambda>k. if k = 0 then 0 else 60)\<rparr>"

definition periodicDevice :: "nat \<Rightarrow> nat \<Rightarrow> device" where
  "periodicDevice p j = \<lparr>dataLevel = (\<lambda>k. k mod p = j), microtime = (\<lambda>k. 0)\<rparr>"

text \<open>
  The states in which the loop of \<open>__begin\<close> starts an iteration on
  \<open>periodicDevice 275 14\<close>.
\<close>

definition drifting :: "hx711 \<Rightarrow> bool" where
  "drifting s =
     ((\<exists>q. dataReads s = 275 * q) \<and> scale s = Num 35 \<and> (offset s = Num 0 \<or> offset s = NegZero))"

subsection \<open>The Taring state in the words of the specification\<close>

text \<open>
  Call \<open>tare()\<close>, then \<open>read()\<close>, and repeat until the absolute value of the reading
  is below 0.5.  This is not the code: \<open>taringLoop\<close> is.
\<close>

partial_function (option) taringLoop_spec :: "device \<Rightarrow> hx711 \<Rightarrow> (bool \<times> hx711) option" where
  "taringLoop_spec dev s =
     (case tare dev s of
        None \<Rightarrow> None
      | Some (_, s1) \<Rightarrow>
          (case read dev s1 of
             None \<Rightarrow> None
           | Some (reading, s2) \<Rightarrow>
               if js_ge (js_abs reading) (Num (1 / 2)) then taringLoop_spec dev s2
               else Some (True, s2)))"

section \<open>Auxiliary lemmas\<close>

lemma advance_fields [simp]:
  "offset (advance d t es s) = offset s"
  "scale (advance d t es s) = scale s"
  "latestReading (advance d t es s) = latestReading s"
  "channelGain (advance d t es s) = channelGain s"
  "dataReads (advance d t es s) = dataReads s + d"
  "timeReads (advance d t es s) = timeReads s + t"
  "events (advance d t es s) = events s @ es"
  by (simp_all add: advance_def)

lemma advance_advance [simp]:
  "advance d2 t2 es2 (advance d1 t1 es1 s) = advance (d1 + d2) (t1 + t2) (es1 @ es2) s"
  by (simp add: advance_def)

lemma advance_zero [simp]: "advance 0 0 [] s = s"
  by (simp add: advance_def)

lemma emit_advance: "emit e s = advance 0 0 [e] s"
  by (simp add: emit_def advance_def)

lemma msleep_advance: "msleep ms s = advance 0 0 [Msleep ms] s"
  by (simp add: msleep_def emit_advance)

lemma clockWrite_advance: "clockWrite lv s = advance 0 0 [ClockWrite lv] s"
  by (simp add: clockWrite_def emit_advance)

lemma isReady_advance: "isReady dev s = (\<not> dataLevel dev (dataReads s), advance 1 0 [] s)"
  by (simp add: isReady_def digitalRead_def advance_def)

lemma digitalRead_advance: "digitalRead dev s = (dataLevel dev (dataReads s), advance 1 0 [] s)"
  by (simp add: digitalRead_def advance_def)

lemma timedPulse_advance:
  "timedPulse dev s =
     (microtime dev (timeReads s + 1) - microtime dev (timeReads s), advance 0 2 (pulses 1) s)"
  by (simp add: timedPulse_def now_def clockWrite_def emit_def advance_def pulses_def)

lemma pulses_add: "pulses a @ pulses b = pulses (a + b)"
  by (simp add: pulses_def replicate_add)

lemma fastPulses_Suc:
  "fastPulses dev t (Suc m) \<longleftrightarrow>
     microtime dev (t + 1) - microtime dev t < 60 \<and> fastPulses dev (t + 2) m"
  unfolding fastPulses_def
proof (intro iffI conjI allI impI)
  assume h: "\<forall>k<Suc m. microtime dev (t + 2 * k + 1) - microtime dev (t + 2 * k) < 60"
  from h[rule_format, of 0] show "microtime dev (t + 1) - microtime dev t < 60" by simp
  fix k assume "k < m"
  with h[rule_format, of "Suc k"]
  show "microtime dev (t + 2 + 2 * k + 1) - microtime dev (t + 2 + 2 * k) < 60"
    by (simp add: add.commute add.left_commute)
next
  assume h: "microtime dev (t + 1) - microtime dev t < 60 \<and>
    (\<forall>k<m. microtime dev (t + 2 + 2 * k + 1) - microtime dev (t + 2 + 2 * k) < 60)"
  fix k assume k: "k < Suc m"
  show "microtime dev (t + 2 * k + 1) - microtime dev (t + 2 * k) < 60"
  proof (cases k)
    case 0 with h show ?thesis by simp
  next
    case (Suc j)
    with k h have "microtime dev (t + 2 + 2 * j + 1) - microtime dev (t + 2 + 2 * j) < 60" by simp
    with Suc show ?thesis by (simp add: add.commute add.left_commute)
  qed
qed

lemma waitUntilReady_polls:
  "(\<forall>k<j. dataLevel dev (dataReads s + k)) \<Longrightarrow> \<not> dataLevel dev (dataReads s + j) \<Longrightarrow>
   waitUntilReady dev s = Some (advance (Suc j) 0 (replicate j (Msleep 1)) s)"
proof (induction j arbitrary: s)
  case 0
  then show ?case
    by (subst waitUntilReady.simps) (simp add: isReady_advance)
next
  case (Suc j)
  from Suc.prems(1)[rule_format, of 0] have nr: "dataLevel dev (dataReads s)" by simp
  let ?s = "msleep 1 (advance 1 0 [] s)"
  have a: "\<forall>k<j. dataLevel dev (dataReads ?s + k)"
    using Suc.prems(1) by (auto simp: msleep_advance)
  have b: "\<not> dataLevel dev (dataReads ?s + j)"
    using Suc.prems(2) by (simp add: msleep_advance)
  have "waitUntilReady dev s = waitUntilReady dev ?s"
    by (subst waitUntilReady.simps) (simp add: isReady_advance nr)
  also have "\<dots> = Some (advance (Suc j) 0 (replicate j (Msleep 1)) ?s)"
    by (rule Suc.IH[OF a b])
  finally show ?case by (simp add: msleep_advance replicate_app_Cons_same)
qed

lemma pulseLoop_fast:
  "fastPulses dev (timeReads s) m \<Longrightarrow>
   pulseLoop dev g (i + m) i s = Some (True, advance 0 (2 * m) (pulses m) s)"
proof (induction m arbitrary: i s)
  case 0
  then show ?case by (subst pulseLoop.simps) (simp add: pulses_def)
next
  case (Suc m)
  from Suc.prems have f1: "microtime dev (timeReads s + 1) - microtime dev (timeReads s) < 60"
    and f2: "fastPulses dev (timeReads s + 2) m"
    by (simp_all add: fastPulses_Suc)
  let ?s = "advance 0 2 (pulses 1) s"
  have "pulseLoop dev g (i + Suc m) i s = pulseLoop dev g (Suc i + m) (Suc i) ?s"
    using f1 by (subst pulseLoop.simps) (simp add: timedPulse_advance)
  also have "\<dots> = Some (True, advance 0 (2 * m) (pulses m) ?s)"
    using f2 by (intro Suc.IH) simp
  finally show ?case by (simp add: pulses_add)
qed


lemma setChannelGain_fast:
  "fastPulses dev (timeReads s) (timesToPulse g False) \<Longrightarrow>
   setChannelGain dev g False s =
     Some (True, advance 0 (2 * timesToPulse g False) (pulses (timesToPulse g False)) s)"
  using pulseLoop_fast[of dev s "timesToPulse g False" g 0]
  by (simp add: setChannelGain_def)

lemma waitReady_ready:
  "(\<forall>k<j. dataLevel dev (dataReads s + k)) \<Longrightarrow> \<not> dataLevel dev (dataReads s + j) \<Longrightarrow>
   c + j \<le> 9999 \<Longrightarrow>
   waitReady dev c s = (True, advance (Suc j) 0 (replicate j (Msleep 1)) s)"
proof (induction j arbitrary: s c)
  case 0
  then show ?case by (subst waitReady.simps) (simp add: isReady_advance)
next
  case (Suc j)
  from Suc.prems(1)[rule_format, of 0] have nr: "dataLevel dev (dataReads s)" by simp
  let ?s = "msleep 1 (advance 1 0 [] s)"
  have a: "\<forall>k<j. dataLevel dev (dataReads ?s + k)"
    using Suc.prems(1) by (auto simp: msleep_advance)
  have b: "\<not> dataLevel dev (dataReads ?s + j)"
    using Suc.prems(2) by (simp add: msleep_advance)
  have c: "Suc c + j \<le> 9999" using Suc.prems(3) by simp
  have "waitReady dev c s = waitReady dev (Suc c) ?s"
    using Suc.prems(3) by (subst waitReady.simps) (simp add: isReady_advance nr)
  also have "\<dots> = (True, advance (Suc j) 0 (replicate j (Msleep 1)) ?s)"
    by (rule Suc.IH[OF a b c])
  finally show ?case by (simp add: msleep_advance replicate_app_Cons_same)
qed

lemma waitReady_never:
  "(\<forall>k<j. dataLevel dev (dataReads s + k)) \<Longrightarrow> c + j = 10000 \<Longrightarrow> 0 < j \<Longrightarrow>
   waitReady dev c s = (False, advance j 0 (replicate j (Msleep 1)) s)"
proof (induction j arbitrary: s c)
  case 0
  then show ?case by simp
next
  case (Suc j)
  from Suc.prems(1)[rule_format, of 0] have nr: "dataLevel dev (dataReads s)" by simp
  show ?case
  proof (cases "j = 0")
    case True
    with Suc.prems(2) have "c = 9999" by simp
    with True show ?thesis
      by (subst waitReady.simps) (simp add: isReady_advance nr msleep_advance)
  next
    case False
    let ?s = "msleep 1 (advance 1 0 [] s)"
    have a: "\<forall>k<j. dataLevel dev (dataReads ?s + k)"
      using Suc.prems(1) by (auto simp: msleep_advance)
    have c: "Suc c + j = 10000" using Suc.prems(2) by simp
    have "waitReady dev c s = waitReady dev (Suc c) ?s"
      using Suc.prems(2) False by (subst waitReady.simps) (simp add: isReady_advance nr)
    also have "\<dots> = (False, advance j 0 (replicate j (Msleep 1)) ?s)"
      using False by (intro Suc.IH[OF a c]) simp
    finally show ?thesis by (simp add: msleep_advance replicate_app_Cons_same)
  qed
qed

lemma toInt32_id: "- (2^31) \<le> x \<Longrightarrow> x < 2^31 \<Longrightarrow> toInt32 x = x"
  unfolding toInt32_def by (simp add: signed_take_bit_int_eq_self)

lemma shift_or_bit:
  assumes "0 \<le> d" "d < 2^23"
  shows "js_or (js_shl d 1) (of_bool b) = 2 * d + of_bool b"
proof -
  have 1: "js_shl d 1 = 2 * d"
    using assms by (simp add: js_shl_def toInt32_id)
  have 2: "toInt32 (2 * d) = 2 * d" using assms by (simp add: toInt32_id)
  have 3: "toInt32 (of_bool b) = of_bool b" by (simp add: toInt32_id)
  show ?thesis unfolding 1 js_or_def 2 3
    by (cases b) (simp_all add: or_one_eq)
qed

lemma shiftBits_range:
  "shiftBits dev i d s = (Some P, s') \<Longrightarrow> i \<le> 24 \<Longrightarrow> 0 \<le> d \<Longrightarrow> d < 2 ^ i \<Longrightarrow>
   0 \<le> P \<and> P < 2 ^ 24"
proof (induction dev i d s rule: shiftBits.induct)
  case (1 dev i d s)
  show ?case
  proof (cases "i < 24")
    case False
    with "1.prems" have "i = 24" "P = d" by (simp_all add: shiftBits.simps)
    with "1.prems" show ?thesis by simp
  next
    case True
    obtain te s1 where tp: "timedPulse dev s = (te, s1)" by (cases "timedPulse dev s")
    obtain lv s2 where dr: "digitalRead dev s1 = (lv, s2)" by (cases "digitalRead dev s1")
    from "1.prems"(1) True tp have slow: "\<not> 60 \<le> te"
      by (subst (asm) shiftBits.simps) (auto split: if_splits)
    have "d < 2 ^ 23"
    proof -
      have "(2::int) ^ i \<le> 2 ^ 23" using True by (intro power_increasing) simp_all
      with "1.prems"(4) show ?thesis by simp
    qed
    then have step: "js_or (js_shl d 1) (of_bool lv) = 2 * d + of_bool lv"
      using "1.prems"(3) by (intro shift_or_bit)
    from "1.prems"(1) True tp dr slow step
    have rec: "shiftBits dev (i + 1) (2 * d + of_bool lv) s2 = (Some P, s')"
      by (subst (asm) shiftBits.simps) (simp del: of_bool_eq_1_iff)
    have "2 * d + of_bool lv < 2 ^ (i + 1)"
      using "1.prems"(4) by (cases lv) simp_all
    moreover have "0 \<le> 2 * d + of_bool lv" using "1.prems"(3) by simp
    ultimately show ?thesis
      using "1.IH"[OF True tp[symmetric] refl slow dr[symmetric] refl] rec step True
      by simp
  qed
qed

lemma fastPulses_add:
  "fastPulses dev t (a + b) \<longleftrightarrow> fastPulses dev t a \<and> fastPulses dev (t + 2 * a) b"
proof (induction a arbitrary: t)
  case 0
  show ?case by (simp add: fastPulses_def)
next
  case (Suc a)
  have "fastPulses dev t (Suc a + b) \<longleftrightarrow>
        microtime dev (t + 1) - microtime dev t < 60 \<and> fastPulses dev (t + 2) (a + b)"
    by (simp add: fastPulses_Suc)
  also have "\<dots> \<longleftrightarrow> microtime dev (t + 1) - microtime dev t < 60 \<and>
        fastPulses dev (t + 2) a \<and> fastPulses dev (t + 2 + 2 * a) b"
    by (simp add: Suc.IH)
  also have "\<dots> \<longleftrightarrow> fastPulses dev t (Suc a) \<and> fastPulses dev (t + 2 * Suc a) b"
    by (simp add: fastPulses_Suc add.assoc)
  finally show ?case .
qed

lemma shiftBits_fast:
  "fastPulses dev (timeReads s) m \<Longrightarrow> i + m = 24 \<Longrightarrow> 0 \<le> d \<Longrightarrow> d < 2 ^ i \<Longrightarrow>
   shiftBits dev i d s = (Some (shiftIn dev (dataReads s) m d), advance m (2 * m) (pulses m) s)"
proof (induction m arbitrary: i d s)
  case 0
  then show ?case by (subst shiftBits.simps) (simp add: pulses_def)
next
  case (Suc m)
  from Suc.prems have f1: "microtime dev (timeReads s + 1) - microtime dev (timeReads s) < 60"
    and f2: "fastPulses dev (timeReads s + 2) m"
    by (simp_all add: fastPulses_Suc)
  from Suc.prems(2) have i: "i < 24" by simp
  have "d < 2 ^ 23"
  proof -
    have "(2::int) ^ i \<le> 2 ^ 23" using i by (intro power_increasing) simp_all
    with Suc.prems(4) show ?thesis by simp
  qed
  then have step: "js_or (js_shl d 1) (of_bool lv) = 2 * d + of_bool lv" for lv
    using Suc.prems(3) by (intro shift_or_bit)
  let ?lv = "dataLevel dev (dataReads s)"
  let ?d = "2 * d + of_bool ?lv"
  let ?s = "advance 1 2 (pulses 1) s"
  have "shiftBits dev i d s = shiftBits dev (Suc i) ?d ?s"
    using f1 i
    using step[of True] step[of False]
    by (subst shiftBits.simps) (simp add: timedPulse_advance digitalRead_advance)
  also have "\<dots> = (Some (shiftIn dev (dataReads ?s) m ?d), advance m (2 * m) (pulses m) ?s)"
  proof (rule Suc.IH)
    show "fastPulses dev (timeReads ?s) m" using f2 by simp
    show "Suc i + m = 24" using Suc.prems(2) by simp
    show "0 \<le> ?d" using Suc.prems(3) by simp
    show "?d < 2 ^ Suc i" using Suc.prems(4) by (cases ?lv) simp_all
  qed
  finally show ?case by (simp add: pulses_add)
qed

lemma xor_mask_int:
  assumes "0 \<le> P" "P < 2^n"
  shows "P XOR mask n = mask n - (P::int)"
proof -
  have tb: "take_bit n P = P" using assms by (simp add: take_bit_int_eq_self)
  have "P XOR mask n = take_bit n (NOT P)"
  proof (rule bit_eqI)
    fix k
    have "k \<ge> n \<Longrightarrow> \<not> bit P k"
      using tb by (metis bit_take_bit_iff not_le)
    then show "bit (P XOR mask n) k = bit (take_bit n (NOT P)) k"
      by (auto simp: bit_simps)
  qed
  also have "\<dots> = mask n - take_bit n P" by (rule take_bit_not_eq_mask_diff)
  finally show ?thesis using tb by simp
qed

lemma xor_mask24:
  assumes "0 \<le> P" "P < 2^24"
  shows "P XOR 0xffffff = 0xffffff - (P::int)"
  using xor_mask_int[of P 24] assms by (simp add: mask_eq_exp_minus_1)

lemma bit23:
  assumes "0 \<le> P" "P < 2^24"
  shows "bit (P::int) 23 \<longleftrightarrow> 2^23 \<le> P"
proof -
  have "P div 2^23 = 0 \<or> P div 2^23 = 1" using assms by auto
  moreover have "P div 2^23 = 0 \<longleftrightarrow> P < 2^23" using assms by auto
  ultimately show ?thesis by (auto simp: bit_iff_odd)
qed

lemma and23: "(P::int) AND 0x800000 \<noteq> 0 \<longleftrightarrow> bit P 23"
  using and_exp_eq_0_iff_not_bit[of P 23] by simp

lemma decode_bits:
  assumes "0 \<le> P" "P < 2 ^ 24"
  shows "decode P =
     (if P = 0x7fffff \<or> P = 0x800000 then Inl InvalidData
      else Inr (if bit P 23 then - ((P XOR 0xffffff) + 1) else P))"
proof -
  have "toInt32 P = P" using assms by (simp add: toInt32_id)
  moreover have "toInt32 0x800000 = 0x800000" "toInt32 0xffffff = 0xffffff"
    by (simp_all add: toInt32_id)
  ultimately show ?thesis
    by (simp add: decode_def js_and_def js_xor_def and23)
qed

lemma decode_signed24:
  assumes "0 \<le> P" "P < 2 ^ 24"
  shows "decode P =
     (if P = 0x7fffff \<or> P = 0x800000 then Inl InvalidData else Inr (signed24 P))"
  using assms by (simp add: decode_bits bit23 xor_mask24 signed24_def)

lemma readRaw_unfold:
  assumes "waitReady dev 0 (clockWrite False s) = (True, s1)"
    and "shiftBits dev 0 0 s1 = (Some P, s2)"
    and "setChannelGain dev (channelGain s2) False s2 = Some (b, s3)"
  shows "readRaw dev s =
     Some (decode P, case decode P of Inl e \<Rightarrow> emit (LogInvalid P) (msleep 1 s3)
                                   | Inr v \<Rightarrow> msleep 1 s3)"
  using assms by (simp add: readRaw_def split: sum.splits)

lemma readRaw_first_poll:
  assumes rdy: "\<not> dataLevel dev (dataReads s)"
    and fast: "fastPulses dev (timeReads s) (24 + timesToPulse (channelGain s) False)"
  shows "readRaw dev s =
     Some (decode (pattern dev (dataReads s + 1)),
           case decode (pattern dev (dataReads s + 1)) of
             Inl e \<Rightarrow> emit (LogInvalid (pattern dev (dataReads s + 1))) (rawDone s)
           | Inr v \<Rightarrow> rawDone s)"
proof -
  let ?g = "channelGain s"
  let ?n = "timesToPulse ?g False"
  let ?s0 = "clockWrite False s"
  let ?s1 = "advance 1 0 [ClockWrite False] s"
  let ?s2 = "advance 25 48 (ClockWrite False # pulses 24) s"
  let ?s3 = "advance 25 (48 + 2 * ?n) (ClockWrite False # pulses 24 @ pulses ?n) s"
  from fast have f24: "fastPulses dev (timeReads s) 24"
    and fn: "fastPulses dev (timeReads s + 48) ?n"
    by (simp_all add: fastPulses_add)
  have w: "waitReady dev 0 ?s0 = (True, ?s1)"
    using waitReady_ready[of 0 dev ?s0 0] rdy by (simp add: clockWrite_advance)
  have sh: "shiftBits dev 0 0 ?s1 = (Some (pattern dev (dataReads s + 1)), ?s2)"
    using shiftBits_fast[of dev ?s1 24 0 0] f24 by (simp add: pattern_def)
  have cg: "setChannelGain dev (channelGain ?s2) False ?s2 = Some (True, ?s3)"
    using setChannelGain_fast[of dev ?s2 ?g] fn by simp
  have fin: "msleep 1 ?s3 = rawDone s"
    by (simp add: msleep_advance rawDone_def rawEvents_def pulses_add)
  show ?thesis
    using readRaw_unfold[OF w sh cg] unfolding fin .
qed

lemma readRaw_sample:
  assumes "readRaw dev s = Some (Inr v, s')"
  shows "\<exists>P. 0 \<le> P \<and> P < 2 ^ 24 \<and> P \<noteq> 0x7fffff \<and> P \<noteq> 0x800000 \<and> v = signed24 P"
proof -
  obtain r s1 where w: "waitReady dev 0 (clockWrite False s) = (r, s1)"
    by (cases "waitReady dev 0 (clockWrite False s)")
  obtain q s2 where sh: "shiftBits dev 0 0 s1 = (q, s2)"
    by (cases "shiftBits dev 0 0 s1")
  from assms w sh obtain P where P: "q = Some P" and d: "decode P = Inr v"
    by (auto simp: readRaw_def Let_def split: if_splits option.splits sum.splits)
  from sh P have rng: "0 \<le> P \<and> P < 2 ^ 24"
    by (intro shiftBits_range[of dev 0 0 s1 P s2]) simp_all
  with d have "P \<noteq> 0x7fffff \<and> P \<noteq> 0x800000 \<and> v = signed24 P"
    by (auto simp: decode_signed24 split: if_splits)
  with rng show ?thesis by blast
qed

lemma pattern_edgeDevice: "pattern edgeDevice 1 = 0x800001"
  by (simp add: pattern_def edgeDevice_def eval_nat_numeral)

lemma fastPulses_const: "microtime dev = (\<lambda>k. c) \<Longrightarrow> fastPulses dev t n"
  by (simp add: fastPulses_def)

lemma readRaw_edgeDevice:
  "readRaw edgeDevice (constructed None None) =
     Some (Inr (- 8388607), rawDone (constructed None None))"
proof -
  let ?s = "constructed None None"
  have r: "\<not> dataLevel edgeDevice (dataReads ?s)"
    by (simp add: edgeDevice_def constructed_def)
  have f: "fastPulses edgeDevice (timeReads ?s) (24 + timesToPulse (channelGain ?s) False)"
    by (rule fastPulses_const[where c = 0]) (simp add: edgeDevice_def)
  have p: "pattern edgeDevice (dataReads ?s + 1) = 0x800001"
    using pattern_edgeDevice by (simp add: constructed_def)
  have d: "decode 0x800001 = Inr (- 8388607)"
    by (simp add: decode_signed24 signed24_def)
  show ?thesis
    using readRaw_first_poll[OF r f] unfolding p d by simp
qed

lemma ioOnly_refl: "ioOnly s s"
  unfolding ioOnly_def by (rule exI[of _ 0], rule exI[of _ 0], rule exI[of _ "[]"]) simp

lemma ioOnly_advance: "ioOnly s (advance d t es s)"
  unfolding ioOnly_def by blast

lemma ioOnly_trans: "ioOnly s s1 \<Longrightarrow> ioOnly s1 s2 \<Longrightarrow> ioOnly s s2"
  unfolding ioOnly_def by (metis advance_advance)

lemma ioOnly_step: "ioOnly (advance d t es s) s' \<Longrightarrow> ioOnly s s'"
  using ioOnly_trans[OF ioOnly_advance] .

lemma ioOnly_fields:
  "ioOnly s s' \<Longrightarrow> offset s' = offset s \<and> scale s' = scale s
     \<and> latestReading s' = latestReading s \<and> channelGain s' = channelGain s"
  unfolding ioOnly_def by auto

lemma waitUntilReady_io:
  assumes "waitUntilReady dev s = Some s'"
  shows "ioOnly s s'"
proof (induct rule: waitUntilReady.raw_induct[OF _ assms])
  case (1 f dev s s')
  note ih = "1"(1) and eq = "1"(2)
  show ?case
  proof (cases "dataLevel dev (dataReads s)")
    case False
    with eq have "s' = advance 1 0 [] s" by (simp add: isReady_advance)
    then show ?thesis by (simp add: ioOnly_advance)
  next
    case True
    with eq have "f dev (msleep 1 (advance 1 0 [] s)) = Some s'"
      by (simp add: isReady_advance)
    from ih[OF this] show ?thesis
      by (simp add: msleep_advance) (rule ioOnly_step)
  qed
qed

lemma pulseLoop_io_aux:
  assumes "pulseLoop dev g n k s = Some y"
  shows "fst y \<and> ioOnly s (snd y)"
proof (induct rule: pulseLoop.raw_induct[OF _ assms])
  case (1 f dev g n k s y)
  note ih = "1"(1) and eq = "1"(2)
  let ?te = "microtime dev (timeReads s + 1) - microtime dev (timeReads s)"
  let ?s1 = "advance 0 2 (pulses 1) s"
  show ?case
  proof (cases "k < n")
    case False
    with eq show ?thesis by (auto simp: ioOnly_refl)
  next
    case kn: True
    show ?thesis
    proof (cases "60 \<le> ?te")
      case False
      with kn eq have "f dev g n (k + 1) ?s1 = Some y"
        by (simp add: timedPulse_advance)
      from ih[OF this] show ?thesis by (auto intro: ioOnly_step)
    next
      case True
      with kn eq obtain s2 where
        w: "waitUntilReady dev (emit (LogSlow ?te) ?s1) = Some s2"
        and r: "f dev g (timesToPulse g True) 0 s2 = Some y"
        by (auto simp: timedPulse_advance split: option.splits)
      from waitUntilReady_io[OF w] have "ioOnly s s2"
        by (simp add: emit_advance) (rule ioOnly_step)
      with ih[OF r] show ?thesis by (auto intro: ioOnly_trans)
    qed
  qed
qed

lemma pulseLoop_io: "pulseLoop dev g n k s = Some (b, s') \<Longrightarrow> b \<and> ioOnly s s'"
  using pulseLoop_io_aux[of dev g n k s "(b, s')"] by simp

lemma setChannelGain_io: "setChannelGain dev g isInit s = Some (b, s') \<Longrightarrow> b \<and> ioOnly s s'"
  by (auto simp: setChannelGain_def split: if_splits option.splits
           dest!: waitUntilReady_io pulseLoop_io intro: ioOnly_trans)

lemma waitReady_io: "waitReady dev c s = (r, s') \<Longrightarrow> ioOnly s s'"
proof (induction dev c s rule: waitReady.induct)
  case (1 dev c s)
  show ?case
  proof (cases "dataLevel dev (dataReads s)")
    case False
    with "1.prems" have "s' = advance 1 0 [] s"
      by (subst (asm) waitReady.simps) (simp add: isReady_advance)
    then show ?thesis by (simp add: ioOnly_advance)
  next
    case True
    let ?s = "msleep 1 (advance 1 0 [] s)"
    show ?thesis
    proof (cases "c \<ge> 9999")
      case c: True
      with True "1.prems" have "s' = ?s"
        by (subst (asm) waitReady.simps) (simp add: isReady_advance)
      then show ?thesis by (simp add: msleep_advance ioOnly_advance)
    next
      case False
      with True "1.prems" have rec: "waitReady dev (c + 1) ?s = (r, s')"
        by (subst (asm) waitReady.simps) (simp add: isReady_advance)
      have "ioOnly ?s s'"
        using True False by (intro "1.IH"[OF _ _ _ _ _ rec]) (simp_all add: isReady_advance)
      then show ?thesis by (simp add: msleep_advance) (rule ioOnly_step)
    qed
  qed
qed

lemma shiftBits_io: "shiftBits dev i d s = (q, s') \<Longrightarrow> ioOnly s s'"
proof (induction dev i d s rule: shiftBits.induct)
  case (1 dev i d s)
  let ?te = "microtime dev (timeReads s + 1) - microtime dev (timeReads s)"
  let ?s1 = "advance 0 2 (pulses 1) s"
  show ?case
  proof (cases "i < 24")
    case False
    with "1.prems" show ?thesis by (simp add: shiftBits.simps ioOnly_refl)
  next
    case i: True
    show ?thesis
    proof (cases "60 \<le> ?te")
      case True
      with i "1.prems" have "s' = emit (LogSlow ?te) ?s1"
        by (subst (asm) shiftBits.simps) (simp add: timedPulse_advance)
      then show ?thesis by (simp add: emit_advance ioOnly_advance)
    next
      case False
      let ?lv = "dataLevel dev (dataReads s)"
      let ?s2 = "advance 1 2 (pulses 1) s"
      let ?d = "js_or (js_shl d 1) (of_bool ?lv)"
      from i False "1.prems" have rec: "shiftBits dev (i + 1) ?d ?s2 = (q, s')"
        by (subst (asm) shiftBits.simps)
           (simp add: timedPulse_advance digitalRead_advance del: of_bool_eq_1_iff)
      have "ioOnly ?s2 s'"
      proof (rule "1.IH"[OF i _ refl _ _ refl])
        show "(?te, ?s1) = timedPulse dev s" by (simp add: timedPulse_advance)
        show "\<not> 60 \<le> ?te" by (rule False)
        show "(?lv, ?s2) = digitalRead dev ?s1" by (simp add: digitalRead_advance)
        show "shiftBits dev (i + 1) (js_or (js_shl d 1) (of_bool ?lv)) ?s2 = (q, s')"
          by (rule rec)
      qed
      then show ?thesis by (rule ioOnly_step)
    qed
  qed
qed

lemma readRaw_io: "readRaw dev s = Some (r, s') \<Longrightarrow> ioOnly s s'"
proof -
  assume a: "readRaw dev s = Some (r, s')"
  obtain rd s1 where w: "waitReady dev 0 (clockWrite False s) = (rd, s1)"
    by (cases "waitReady dev 0 (clockWrite False s)")
  obtain q s2 where sh: "shiftBits dev 0 0 s1 = (q, s2)"
    by (cases "shiftBits dev 0 0 s1")
  from waitReady_io[OF w] have 1: "ioOnly s s1"
    by (simp add: clockWrite_advance) (rule ioOnly_step)
  from shiftBits_io[OF sh] 1 have 2: "ioOnly s s2" by (blast intro: ioOnly_trans)
  show ?thesis
  proof (cases rd)
    case False
    with a w 1 show ?thesis by (simp add: readRaw_def)
  next
    case True
    show ?thesis
    proof (cases q)
      case None
      with a w sh True 2 show ?thesis by (simp add: readRaw_def)
    next
      case (Some P)
      with a w sh True obtain b s3 where
        cg: "setChannelGain dev (channelGain s2) False s2 = Some (b, s3)"
        and s': "s' = (case decode P of Inl e \<Rightarrow> emit (LogInvalid P) (msleep 1 s3)
                                   | Inr v \<Rightarrow> msleep 1 s3)"
        by (auto simp: readRaw_def Let_def split: option.splits sum.splits)
      from setChannelGain_io[OF cg] 2 have "ioOnly s s3" by (blast intro: ioOnly_trans)
      moreover have "ioOnly s3 s'"
        unfolding s' by (cases "decode P") (simp_all add: emit_advance msleep_advance ioOnly_advance)
      ultimately show ?thesis by (rule ioOnly_trans)
    qed
  qed
qed

lemma readUntilSample_io_aux:
  assumes "readUntilSample dev s = Some y"
  shows "ioOnly s (snd y)"
proof (induct rule: readUntilSample.raw_induct[OF _ assms])
  case (1 f dev s y)
  note ih = "1"(1) and eq = "1"(2)
  from eq obtain r s1 where rr: "readRaw dev s = Some (r, s1)"
    by (cases "readRaw dev s") auto
  from readRaw_io[OF rr] have io: "ioOnly s s1" .
  show ?case
  proof (cases r)
    case (Inl e)
    with rr eq have "f dev s1 = Some y" by simp
    from ih[OF this] io show ?thesis by (blast intro: ioOnly_trans)
  next
    case (Inr x)
    with rr eq io show ?thesis by auto
  qed
qed

lemma readUntilSample_io: "readUntilSample dev s = Some (v, s') \<Longrightarrow> ioOnly s s'"
  using readUntilSample_io_aux[of dev s "(v, s')"] by simp

lemma readLoop_io: "readLoop dev n i acc s = Some (t, s') \<Longrightarrow> ioOnly s s'"
proof (induction dev n i acc s rule: readLoop.induct)
  case (1 dev n i acc s)
  show ?case
  proof (cases "i < n")
    case False
    with "1.prems" show ?thesis by (simp add: readLoop.simps ioOnly_refl)
  next
    case True
    with "1.prems" obtain v s1 where ru: "readUntilSample dev s = Some (v, s1)"
      and rec: "readLoop dev n (i + 1) (acc + v) s1 = Some (t, s')"
      by (subst (asm) readLoop.simps) (auto split: option.splits)
    from "1.IH"[OF True ru refl rec] readUntilSample_io[OF ru]
    show ?thesis by (blast intro: ioOnly_trans)
  qed
qed

lemma readRawAverage_io: "readRawAverage dev n s = Some (a, s') \<Longrightarrow> ioOnly s s'"
  by (auto simp: readRawAverage_def Let_def split: option.splits dest: readLoop_io)

lemma js_div_Num:
  "b \<noteq> 0 \<Longrightarrow> js_div (Num a) (Num b) = (if a = 0 then js_zero (b < 0) else Num (a / b))"
  by (simp add: js_div_def js_zero_def)

lemma js_div_Num_pos: "0 < b \<Longrightarrow> js_div (Num a) (Num b) = Num (a / b)"
  by (simp add: js_div_Num js_zero_def)

lemma js_div_zero_zero: "js_div (Num 0) (Num 0) = NaN"
  by (simp add: js_div_def)

lemma shiftIn_range:
  "0 \<le> acc \<Longrightarrow> acc < 2 ^ i \<Longrightarrow> 0 \<le> shiftIn dev j m acc \<and> shiftIn dev j m acc < 2 ^ (i + m)"
proof (induction m arbitrary: j acc i)
  case 0
  then show ?case by simp
next
  case (Suc m)
  let ?a = "2 * acc + of_bool (dataLevel dev j)"
  have "0 \<le> ?a" using Suc.prems by simp
  moreover have "?a < 2 ^ Suc i" using Suc.prems by (cases "dataLevel dev j") simp_all
  ultimately have "0 \<le> shiftIn dev (Suc j) m ?a \<and> shiftIn dev (Suc j) m ?a < 2 ^ (Suc i + m)"
    by (rule Suc.IH)
  then show ?case by simp
qed

lemma pattern_range: "0 \<le> pattern dev j \<and> pattern dev j < 2 ^ 24"
  using shiftIn_range[of 0 0 dev j 24] by (simp add: pattern_def)

lemma steadyClock_fast: "steadyClock dev \<Longrightarrow> fastPulses dev t n"
  by (simp add: steadyClock_def fastPulses_def)

lemma rawDone_samplesDone: "rawDone s = samplesDone 1 s"
  by (simp add: rawDone_def samplesDone_def)

lemma samplesDone_Suc: "samplesDone m (rawDone s) = samplesDone (Suc m) s"
  by (simp add: rawDone_def samplesDone_def)

lemma samplesDone_fields [simp]:
  "offset (samplesDone m s) = offset s"
  "scale (samplesDone m s) = scale s"
  "latestReading (samplesDone m s) = latestReading s"
  "channelGain (samplesDone m s) = channelGain s"
  "dataReads (samplesDone m s) = dataReads s + 25 * m"
  by (simp_all add: samplesDone_def)

lemma readRaw_sampleOK:
  assumes "steadyClock dev" and "sampleOK dev (dataReads s)"
  shows "readRaw dev s = Some (Inr (sampleAt dev (dataReads s)), rawDone s)"
proof -
  from assms(2) have rdy: "\<not> dataLevel dev (dataReads s)"
    and ok: "pattern dev (dataReads s + 1) \<noteq> 0x7fffff" "pattern dev (dataReads s + 1) \<noteq> 0x800000"
    by (simp_all add: sampleOK_def)
  have d: "decode (pattern dev (dataReads s + 1)) = Inr (sampleAt dev (dataReads s))"
    using ok pattern_range[of dev "dataReads s + 1"]
    by (simp add: decode_signed24 sampleAt_def)
  show ?thesis
    using readRaw_first_poll[OF rdy steadyClock_fast[OF assms(1)]] unfolding d by simp
qed

lemma readUntilSample_sampleOK:
  assumes "steadyClock dev" and "sampleOK dev (dataReads s)"
  shows "readUntilSample dev s = Some (sampleAt dev (dataReads s), rawDone s)"
  by (subst readUntilSample.simps) (simp add: readRaw_sampleOK[OF assms])

lemma readLoop_samples:
  "steadyClock dev \<Longrightarrow> samplesOK dev (dataReads s) m \<Longrightarrow> n = i + int m \<Longrightarrow>
   readLoop dev n i acc s = Some (acc + sampleSum dev (dataReads s) m, samplesDone m s)"
proof (induction m arbitrary: s i acc)
  case 0
  then show ?case by (subst readLoop.simps) (simp add: samplesDone_def)
next
  case (Suc m)
  from Suc.prems(2) have ok: "sampleOK dev (dataReads s)"
    and rest: "samplesOK dev (dataReads (rawDone s)) m"
    by (simp_all add: rawDone_def)
  from Suc.prems(3) have lt: "i < n" and n: "n = (i + 1) + int m" by simp_all
  have "readLoop dev n i acc s =
        readLoop dev n (i + 1) (acc + sampleAt dev (dataReads s)) (rawDone s)"
    using lt by (subst readLoop.simps) (simp add: readUntilSample_sampleOK[OF Suc.prems(1) ok])
  also have "\<dots> = Some (acc + sampleAt dev (dataReads s) + sampleSum dev (dataReads (rawDone s)) m,
                        samplesDone m (rawDone s))"
    by (rule Suc.IH[OF Suc.prems(1) rest n])
  finally show ?case
    unfolding samplesDone_Suc by (simp add: rawDone_def)
qed

lemma readRawAverage_samples:
  assumes "steadyClock dev" and "0 < n" and "samplesOK dev (dataReads s) (nat n)"
  shows "readRawAverage dev n s =
     Some (Num (of_int (sampleSum dev (dataReads s) (nat n)) / of_int n), samplesDone (nat n) s)"
proof -
  have "readLoop dev n 0 0 s =
        Some (0 + sampleSum dev (dataReads s) (nat n), samplesDone (nat n) s)"
    using assms by (intro readLoop_samples) simp_all
  then show ?thesis using assms(2) by (simp add: readRawAverage_def js_div_Num_pos)
qed

lemma readRawAverage_finite:
  assumes "readRawAverage dev n s = Some (a, s')" and "n \<noteq> 0"
  shows "\<exists>r. a = Num r"
proof -
  let ?n = "if n < 0 then 1 else n"
  have pos: "0 < (of_int ?n :: real)" using assms(2) by simp
  from assms(1) obtain t where "a = js_div (Num (of_int t)) (Num (of_int ?n))"
    by (auto simp: readRawAverage_def Let_def split: option.splits)
  with js_div_Num_pos[OF pos] show ?thesis by simp
qed



lemma shiftIn_cong:
  "(\<forall>k<m. dataLevel dev (j + k) = dataLevel dev' (j' + k)) \<Longrightarrow>
   shiftIn dev j m acc = shiftIn dev' j' m acc"
proof (induction m arbitrary: j j' acc)
  case 0
  show ?case by simp
next
  case (Suc m)
  from Suc.prems[rule_format, of 0] have h: "dataLevel dev j = dataLevel dev' j'" by simp
  have "\<forall>k<m. dataLevel dev (Suc j + k) = dataLevel dev' (Suc j' + k)"
    using Suc.prems by (auto dest: spec[of _ "Suc _"])
  from Suc.IH[OF this] h show ?case by simp
qed

lemma pattern_periodic:
  "pattern (periodicDevice p j) (Suc (p * q + c)) = pattern (periodicDevice p j) (Suc c)"
  unfolding pattern_def
  by (rule shiftIn_cong) (simp add: periodicDevice_def add.assoc)

lemma dataLevel_periodic:
  "dataLevel (periodicDevice p j) (p * q + c) = (c mod p = j)"
  by (simp add: periodicDevice_def)

lemma steadyClock_periodic: "steadyClock (periodicDevice p j)"
  by (simp add: steadyClock_def periodicDevice_def)

lemma steadyClock_idle: "steadyClock idleDevice"
  by (simp add: steadyClock_def idleDevice_def)

lemma shiftIn_low: "(\<forall>k<m. \<not> dataLevel dev (j + k)) \<Longrightarrow> shiftIn dev j m 0 = 0"
proof (induction m arbitrary: j)
  case 0
  show ?case by simp
next
  case (Suc m)
  from Suc.prems[rule_format, of 0] have h: "\<not> dataLevel dev j" by simp
  have "\<forall>k<m. \<not> dataLevel dev (Suc j + k)"
    using Suc.prems by (auto dest: spec[of _ "Suc _"])
  from Suc.IH[OF this] h show ?case by simp
qed

lemma pattern_idle: "pattern idleDevice j = 0"
  unfolding pattern_def by (rule shiftIn_low) (simp add: idleDevice_def)

lemma sampleOK_idle: "sampleOK idleDevice r"
  by (simp add: sampleOK_def pattern_idle) (simp add: idleDevice_def)

lemma samplesOK_idle: "samplesOK idleDevice r m"
  by (induction m arbitrary: r) (simp_all add: sampleOK_idle)

lemma sampleSum_idle: "sampleSum idleDevice r m = 0"
  by (induction m arbitrary: r) (simp_all add: sampleAt_def pattern_idle signed24_def)

lemma readRawAverage_idle:
  "0 < n \<Longrightarrow> readRawAverage idleDevice n s = Some (Num 0, samplesDone (nat n) s)"
  using readRawAverage_samples[OF steadyClock_idle _ samplesOK_idle, of n s]
  by (simp add: sampleSum_idle)

lemma pattern_load: "pattern (periodicDevice 25 14) (Suc 0) = 1024"
  by code_simp

lemma pattern_light: "pattern (periodicDevice 25 21) (Suc 0) = 8"
  by code_simp

lemma sampleOK_load: "sampleOK (periodicDevice 25 14) (25 * q)"
  using pattern_periodic[of 25 14 q 0] dataLevel_periodic[of 25 14 q 0]
  by (simp add: sampleOK_def pattern_load)

lemma sampleAt_load: "sampleAt (periodicDevice 25 14) (25 * q) = 1024"
  using pattern_periodic[of 25 14 q 0] by (simp add: sampleAt_def pattern_load signed24_def)

lemma samplesOK_load: "samplesOK (periodicDevice 25 14) (25 * q) m"
proof (induction m arbitrary: q)
  case 0
  show ?case by simp
next
  case (Suc m)
  from Suc.IH[of "Suc q"] sampleOK_load[of q] show ?case by (simp add: add.commute)
qed

lemma sampleSum_load: "sampleSum (periodicDevice 25 14) (25 * q) m = 1024 * int m"
proof (induction m arbitrary: q)
  case 0
  show ?case by simp
next
  case (Suc m)
  from Suc.IH[of "Suc q"] sampleAt_load[of q] show ?case by (simp add: add.commute)
qed

lemma readRawAverage_load:
  assumes "0 < n" and "dataReads s = 25 * q"
  shows "readRawAverage (periodicDevice 25 14) n s = Some (Num 1024, samplesDone (nat n) s)"
proof -
  have "samplesOK (periodicDevice 25 14) (dataReads s) (nat n)"
    unfolding assms(2) by (rule samplesOK_load)
  from readRawAverage_samples[OF steadyClock_periodic assms(1) this]
  show ?thesis using assms(1) by (simp add: assms(2) sampleSum_load)
qed

lemma sampleOK_light: "sampleOK (periodicDevice 25 21) (25 * q)"
  using pattern_periodic[of 25 21 q 0] dataLevel_periodic[of 25 21 q 0]
  by (simp add: sampleOK_def pattern_light)

lemma sampleAt_light: "sampleAt (periodicDevice 25 21) (25 * q) = 8"
  using pattern_periodic[of 25 21 q 0] by (simp add: sampleAt_def pattern_light signed24_def)

lemma samplesOK_light: "samplesOK (periodicDevice 25 21) (25 * q) m"
proof (induction m arbitrary: q)
  case 0
  show ?case by simp
next
  case (Suc m)
  from Suc.IH[of "Suc q"] sampleOK_light[of q] show ?case by (simp add: add.commute)
qed

lemma sampleSum_light: "sampleSum (periodicDevice 25 21) (25 * q) m = 8 * int m"
proof (induction m arbitrary: q)
  case 0
  show ?case by simp
next
  case (Suc m)
  from Suc.IH[of "Suc q"] sampleAt_light[of q] show ?case by (simp add: add.commute)
qed

lemma readRawAverage_light:
  assumes "0 < n" and "dataReads s = 25 * q"
  shows "readRawAverage (periodicDevice 25 21) n s = Some (Num 8, samplesDone (nat n) s)"
proof -
  have "samplesOK (periodicDevice 25 21) (dataReads s) (nat n)"
    unfolding assms(2) by (rule samplesOK_light)
  from readRawAverage_samples[OF steadyClock_periodic assms(1) this]
  show ?thesis using assms(1) by (simp add: assms(2) sampleSum_light)
qed

lemma readAverage_frame:
  assumes "readAverage dev n s = Some (a, s')"
  shows "offset s' = offset s \<and> scale s' = scale s \<and> channelGain s' = channelGain s"
proof -
  from assms obtain avg s1 where r: "readRawAverage dev n s = Some (avg, s1)"
    and s': "s' = s1\<lparr>latestReading := applyNormalisation s1 avg\<rparr>"
    by (auto simp: readAverage_def Let_def split: option.splits)
  from ioOnly_fields[OF readRawAverage_io[OF r]] s' show ?thesis by simp
qed

lemma tare_frame:
  assumes "tare dev s = Some (b, s')"
  shows "b \<and> scale s' = scale s \<and> channelGain s' = channelGain s"
proof -
  from assms obtain avg s1 where r: "readRawAverage dev 10 s = Some (avg, s1)"
    and s': "s' = s1\<lparr>offset := js_mul (Num (- 1)) avg\<rparr>" and b: "b"
    by (auto simp: tare_def split: option.splits)
  from ioOnly_fields[OF readRawAverage_io[OF r]] s' b show ?thesis by simp
qed

lemma calibrateScale_frame:
  assumes "calibrateScale dev w s = Some (a, s')"
  shows "offset s' = offset s \<and> channelGain s' = channelGain s"
proof -
  from assms obtain avg s1 where r: "readRawAverage dev 5 s = Some (avg, s1)"
    and s': "s' = s1\<lparr>scale := js_div (js_add avg (offset s1)) w\<rparr>"
    by (auto simp: calibrateScale_def Let_def split: option.splits)
  from ioOnly_fields[OF readRawAverage_io[OF r]] s' show ?thesis by simp
qed

lemma taringLoop_frame:
  assumes "taringLoop dev s = Some y"
  shows "fst y \<and> scale (snd y) = scale s \<and> channelGain (snd y) = channelGain s
         \<and> \<not> js_ge (js_abs (latestReading (snd y))) (Num (1 / 2))"
proof (induct rule: taringLoop.raw_induct[OF _ assms])
  case (1 f dev s y)
  note ih = "1"(1) and eq = "1"(2)
  from eq obtain r s1 where rd: "read dev s = Some (r, s1)"
    by (cases "read dev s") auto
  from rd have lr: "latestReading s1 = r"
    by (auto simp: read_def readAverage_def Let_def split: option.splits)
  from rd have fr: "scale s1 = scale s \<and> channelGain s1 = channelGain s"
    using readAverage_frame[of dev 1 s r s1] by (simp add: read_def)
  show ?case
  proof (cases "js_ge (js_abs r) (Num (1 / 2))")
    case False
    with eq rd have "y = (True, s1)" by simp
    with fr lr False show ?thesis by simp
  next
    case True
    with eq rd obtain b s2 where t: "tare dev s1 = Some (b, s2)" and rec: "f dev s2 = Some y"
      by (auto split: option.splits)
    from tare_frame[OF t] fr ih[OF rec] show ?thesis by simp
  qed
qed

lemma hx_begin_frame:
  assumes "hx_begin dev s = Some (b, s')"
  shows "b \<and> scale s' = scale s \<and> \<not> js_ge (js_abs (latestReading s')) (Num (1 / 2))"
proof -
  from assms obtain b1 s1 where
    1: "(if channelGain s \<noteq> CHANNEL_A_GAIN_128
         then setChannelGain dev (channelGain s) False s else Some (True, s)) = Some (b1, s1)"
    and 2: "taringLoop dev s1 = Some (b, s')"
    by (auto simp: hx_begin_def split: option.splits)
  from 1 have "scale s1 = scale s"
    by (auto split: if_splits dest!: setChannelGain_io ioOnly_fields)
  with taringLoop_frame[OF 2] show ?thesis by simp
qed

lemma readRaw_idle: "readRaw idleDevice s = Some (Inr 0, rawDone s)"
  using readRaw_sampleOK[OF steadyClock_idle sampleOK_idle, of s]
  by (simp add: sampleAt_def pattern_idle signed24_def)

lemma applyNormalisation_constructed:
  "offset s = Num 0 \<Longrightarrow> scale s = Num 35 \<Longrightarrow> applyNormalisation s (Num a) = Num (a / 35)"
  by (simp add: applyNormalisation_def js_add_def js_div_def js_zero_def)

lemma readAverage_idle:
  assumes "0 < n" and "offset s = Num 0" and "scale s = Num 35"
  shows "readAverage idleDevice n s =
     Some (Num 0, (samplesDone (nat n) s)\<lparr>latestReading := Num 0\<rparr>)"
  using readRawAverage_idle[OF assms(1), of s]
    applyNormalisation_constructed[of "samplesDone (nat n) s" 0] assms(2,3)
  by (simp add: readAverage_def)

lemma taringLoop_idle:
  assumes "offset s = Num 0" and "scale s = Num 35"
  shows "taringLoop idleDevice s = Some (True, (samplesDone 1 s)\<lparr>latestReading := Num 0\<rparr>)"
  apply (subst taringLoop.simps)
  using readAverage_idle[of 1 s] assms by (simp add: read_def js_ge_def)

lemma applyNormalisation_finite:
  assumes "js_finite (offset s)" and "js_truthy (scale s)"
  shows "js_finite (applyNormalisation s (Num R))"
proof -
  from assms(1) have a: "js_add (Num R) (offset s) = Num (R + js_val (offset s))"
    by (cases "offset s") (simp_all add: js_add_def js_finite_def)
  from assms(2) show ?thesis
    by (cases "scale s")
       (simp_all add: applyNormalisation_def a js_truthy_def js_div_def js_finite_def js_zero_def)
qed

lemma js_below_half:
  "js_finite r \<Longrightarrow> \<not> js_ge (js_abs r) (Num (1 / 2)) \<Longrightarrow> \<bar>js_val r\<bar> < 1 / 2"
  by (cases r) (simp_all add: js_finite_def js_ge_def)

lemma js_mul_minus_finite: "js_finite (js_mul (Num (- 1)) (Num R))"
  by (simp add: js_mul_def js_zero_def js_finite_def)

lemma read_reading:
  assumes "read dev s = Some (r, s1)"
  shows "latestReading s1 = r \<and> offset s1 = offset s \<and> scale s1 = scale s
         \<and> (js_finite (offset s) \<and> js_truthy (scale s) \<longrightarrow> js_finite r)"
proof -
  from assms obtain avg s0 where a: "readRawAverage dev 1 s = Some (avg, s0)"
    and s1: "s1 = s0\<lparr>latestReading := applyNormalisation s0 avg\<rparr>"
    and r: "r = applyNormalisation s0 avg"
    by (auto simp: read_def readAverage_def Let_def split: option.splits)
  from readRawAverage_finite[OF a] obtain R where R: "avg = Num R" by auto
  from ioOnly_fields[OF readRawAverage_io[OF a]]
  have f: "offset s0 = offset s" "scale s0 = scale s" by simp_all
  from applyNormalisation_finite[of s0 R] f r R
  have "js_finite (offset s) \<and> js_truthy (scale s) \<longrightarrow> js_finite r" by simp
  with s1 r f show ?thesis by simp
qed

lemma tare_offset_finite:
  assumes "tare dev s = Some (b, s')"
  shows "js_finite (offset s') \<and> scale s' = scale s"
proof -
  from assms obtain avg s1 where r: "readRawAverage dev 10 s = Some (avg, s1)"
    and s': "s' = s1\<lparr>offset := js_mul (Num (- 1)) avg\<rparr>"
    by (auto simp: tare_def split: option.splits)
  from readRawAverage_finite[OF r] obtain R where "avg = Num R" by auto
  with s' js_mul_minus_finite[of R] ioOnly_fields[OF readRawAverage_io[OF r]]
  show ?thesis by simp
qed

lemma taringLoop_below:
  assumes "taringLoop dev s = Some y"
  shows "js_finite (offset s) \<longrightarrow> js_truthy (scale s) \<longrightarrow>
         js_finite (latestReading (snd y)) \<and> \<bar>js_val (latestReading (snd y))\<bar> < 1 / 2"
proof (induct rule: taringLoop.raw_induct[OF _ assms])
  case (1 f dev s y)
  note ih = "1"(1) and eq = "1"(2)
  from eq obtain r s1 where rd: "read dev s = Some (r, s1)"
    by (cases "read dev s") auto
  note rr = read_reading[OF rd]
  show ?case
  proof (intro impI)
    assume fin: "js_finite (offset s)" and tr: "js_truthy (scale s)"
    with rr have rf: "js_finite r" by simp
    show "js_finite (latestReading (snd y)) \<and> \<bar>js_val (latestReading (snd y))\<bar> < 1 / 2"
    proof (cases "js_ge (js_abs r) (Num (1 / 2))")
      case False
      with eq rd have "y = (True, s1)" by simp
      with rr rf js_below_half[OF rf False] show ?thesis by simp
    next
      case True
      with eq rd obtain b s2 where t: "tare dev s1 = Some (b, s2)" and rec: "f dev s2 = Some y"
        by (auto split: option.splits)
      from tare_offset_finite[OF t] rr tr
      have "js_finite (offset s2)" "js_truthy (scale s2)" by simp_all
      with ih[OF rec] show ?thesis by simp
    qed
  qed
qed

lemma new_HX711_below:
  assumes "new_HX711 dev scaleArg gainArg = Some (b, s')"
  shows "b \<and> js_finite (latestReading s') \<and> \<bar>js_val (latestReading s')\<bar> < 1 / 2"
proof -
  let ?s = "constructed scaleArg gainArg"
  from assms have hb: "hx_begin dev ?s = Some (b, s')" by (simp add: new_HX711_def)
  then obtain b1 s1 where
    1: "(if channelGain ?s \<noteq> CHANNEL_A_GAIN_128
         then setChannelGain dev (channelGain ?s) False ?s else Some (True, ?s)) = Some (b1, s1)"
    and 2: "taringLoop dev s1 = Some (b, s')"
    by (auto simp: hx_begin_def split: option.splits)
  from 1 have "scale s1 = scale ?s \<and> offset s1 = offset ?s"
    by (auto split: if_splits dest!: setChannelGain_io ioOnly_fields)
  moreover have "js_truthy (scale ?s)" "js_finite (offset ?s)"
    by (auto simp: constructed_def js_truthy_def js_finite_def split: option.splits)
  ultimately have "js_finite (offset s1)" "js_truthy (scale s1)" by simp_all
  with taringLoop_below[OF 2] hx_begin_frame[OF hb] show ?thesis by simp
qed

lemma pattern_drift_high: "pattern (periodicDevice 275 14) (Suc 0) = 1024"
  by code_simp

lemma pattern_drift_low:
  assumes "15 \<le> c" and "c + 25 \<le> 275"
  shows "pattern (periodicDevice 275 14) (Suc (275 * q + c)) = 0"
proof -
  have "shiftIn (periodicDevice 275 14) (Suc c) 24 0 = 0"
  proof (rule shiftIn_low, intro allI impI)
    fix k :: nat assume "k < 24"
    with assms have "Suc c + k < 275" "Suc c + k \<noteq> 14" by simp_all
    then show "\<not> dataLevel (periodicDevice 275 14) (Suc c + k)"
      by (simp add: periodicDevice_def)
  qed
  then have "pattern (periodicDevice 275 14) (Suc c) = 0" by (simp add: pattern_def)
  then show ?thesis by (simp add: pattern_periodic)
qed

lemma samples_drift_low:
  "15 \<le> c \<Longrightarrow> c + 25 * m \<le> 275 \<Longrightarrow>
   samplesOK (periodicDevice 275 14) (275 * q + c) m
   \<and> sampleSum (periodicDevice 275 14) (275 * q + c) m = 0"
proof (induction m arbitrary: c)
  case 0
  show ?case by simp
next
  case (Suc m)
  from Suc.prems have c: "c + 25 \<le> 275" "c < 275" "c \<noteq> 14" by simp_all
  have ok: "sampleOK (periodicDevice 275 14) (275 * q + c)"
    using pattern_drift_low[OF Suc.prems(1) c(1), of q] dataLevel_periodic[of 275 14 q c] c
    by (simp add: sampleOK_def)
  have at: "sampleAt (periodicDevice 275 14) (275 * q + c) = 0"
    using pattern_drift_low[OF Suc.prems(1) c(1), of q] by (simp add: sampleAt_def signed24_def)
  have "samplesOK (periodicDevice 275 14) (275 * q + (c + 25)) m
   \<and> sampleSum (periodicDevice 275 14) (275 * q + (c + 25)) m = 0"
    using Suc.prems by (intro Suc.IH) simp_all
  with ok at show ?case by (simp add: add.assoc)
qed

lemma sample_drift_high:
  "sampleOK (periodicDevice 275 14) (275 * q) \<and> sampleAt (periodicDevice 275 14) (275 * q) = 1024"
  using pattern_periodic[of 275 14 q 0] dataLevel_periodic[of 275 14 q 0]
  by (simp add: sampleOK_def sampleAt_def pattern_drift_high signed24_def)

lemma readRawAverage_drift_high:
  assumes "dataReads s = 275 * q"
  shows "readRawAverage (periodicDevice 275 14) 1 s = Some (Num 1024, samplesDone 1 s)"
  using readRawAverage_samples[OF steadyClock_periodic, of 1 275 14 s] sample_drift_high[of q]
  by (simp add: assms)

lemma readRawAverage_drift_low:
  assumes "dataReads s = 275 * q + 25"
  shows "readRawAverage (periodicDevice 275 14) 10 s = Some (Num 0, samplesDone 10 s)"
  using readRawAverage_samples[OF steadyClock_periodic, of 10 275 14 s]
    samples_drift_low[of 25 10 q]
  by (simp add: assms)

lemma read_drift:
  assumes "drifting s"
  shows "read (periodicDevice 275 14) s =
     Some (Num (1024 / 35), (samplesDone 1 s)\<lparr>latestReading := Num (1024 / 35)\<rparr>)"
proof -
  from assms obtain q where q: "dataReads s = 275 * q" and sc: "scale s = Num 35"
    and off: "offset s = Num 0 \<or> offset s = NegZero"
    by (auto simp: drifting_def)
  have "applyNormalisation (samplesDone 1 s) (Num 1024) = Num (1024 / 35)"
    using off sc by (auto simp: applyNormalisation_def js_add_def js_div_def)
  with readRawAverage_drift_high[OF q] show ?thesis
    by (simp add: read_def readAverage_def)
qed

lemma tare_drift:
  assumes "dataReads s = 275 * q + 25"
  shows "tare (periodicDevice 275 14) s = Some (True, (samplesDone 10 s)\<lparr>offset := NegZero\<rparr>)"
  using readRawAverage_drift_low[OF assms]
  by (simp add: tare_def js_mul_def js_zero_def)

lemma taringLoop_drift:
  assumes "taringLoop dev s = Some y"
  shows "dev = periodicDevice 275 14 \<longrightarrow> \<not> drifting s"
proof (induct rule: taringLoop.raw_induct[OF _ assms])
  case (1 f dev s y)
  note ih = "1"(1) and eq = "1"(2)
  show ?case
  proof (intro impI notI)
    assume dev: "dev = periodicDevice 275 14" and d: "drifting s"
    let ?s1 = "(samplesDone 1 s)\<lparr>latestReading := Num (1024 / 35)\<rparr>"
    let ?s2 = "(samplesDone 10 ?s1)\<lparr>offset := NegZero\<rparr>"
    from d obtain q where q: "dataReads s = 275 * q" and sc: "scale s = Num 35"
      by (auto simp: drifting_def)
    have rd: "read dev s = Some (Num (1024 / 35), ?s1)"
      unfolding dev by (rule read_drift[OF d])
    have ge: "js_ge (js_abs (Num (1024 / 35))) (Num (1 / 2))"
      by (simp add: js_ge_def)
    have t: "tare dev ?s1 = Some (True, ?s2)"
      unfolding dev by (rule tare_drift[of _ q]) (simp add: q)
    from eq rd ge t have "f dev ?s2 = Some y" by simp
    from ih[OF this] dev have "\<not> drifting ?s2" by simp
    moreover have "drifting ?s2"
      unfolding drifting_def
    proof (intro conjI)
      have "dataReads ?s2 = 275 * Suc q" by (simp add: q)
      then show "\<exists>q. dataReads ?s2 = 275 * q" by blast
      show "scale ?s2 = Num 35" by (simp add: sc)
      show "offset ?s2 = Num 0 \<or> offset ?s2 = NegZero" by simp
    qed
    ultimately show False by blast
  qed
qed

lemma new_HX711_drift: "new_HX711 (periodicDevice 275 14) None None = None"
proof (rule ccontr)
  assume "new_HX711 (periodicDevice 275 14) None None \<noteq> None"
  then obtain y where "taringLoop (periodicDevice 275 14) (constructed None None) = Some y"
    by (auto simp: new_HX711_def hx_begin_def constructed_def)
  from taringLoop_drift[OF this] have "\<not> drifting (constructed None None)" by simp
  moreover have "dataReads (constructed None None) = 275 * 0" by (simp add: constructed_def)
  then have "drifting (constructed None None)"
    unfolding drifting_def by (intro conjI exI[of _ 0]) (simp_all add: constructed_def)
  ultimately show False by blast
qed

lemma taringLoop_exit:
  "read dev s = Some (reading, s1) \<Longrightarrow> \<not> js_ge (js_abs reading) (Num (1 / 2)) \<Longrightarrow>
   taringLoop dev s = Some (True, s1)"
  by (subst taringLoop.simps) simp

lemma taringLoop_again:
  "read dev s = Some (reading, s1) \<Longrightarrow> js_ge (js_abs reading) (Num (1 / 2)) \<Longrightarrow>
   tare dev s1 = Some (b, s2) \<Longrightarrow> taringLoop dev s = taringLoop dev s2"
  by (subst taringLoop.simps) simp

lemma read_light:
  assumes "dataReads s = 25 * q" and "offset s = Num a" and "scale s = Num 35"
  shows "read (periodicDevice 25 21) s =
     Some (Num ((8 + a) / 35), (samplesDone 1 s)\<lparr>latestReading := Num ((8 + a) / 35)\<rparr>)"
proof -
  have "applyNormalisation (samplesDone 1 s) (Num 8) = Num ((8 + a) / 35)"
    using assms(2,3) by (simp add: applyNormalisation_def js_add_def js_div_def js_zero_def)
  with readRawAverage_light[of 1 s q, OF _ assms(1)] show ?thesis
    by (simp add: read_def readAverage_def)
qed

lemma read_load:
  assumes "dataReads s = 25 * q" and "offset s = Num a" and "scale s = Num 35"
  shows "read (periodicDevice 25 14) s =
     Some (Num ((1024 + a) / 35), (samplesDone 1 s)\<lparr>latestReading := Num ((1024 + a) / 35)\<rparr>)"
proof -
  have "applyNormalisation (samplesDone 1 s) (Num 1024) = Num ((1024 + a) / 35)"
    using assms(2,3) by (simp add: applyNormalisation_def js_add_def js_div_def js_zero_def)
  with readRawAverage_load[of 1 s q, OF _ assms(1)] show ?thesis
    by (simp add: read_def readAverage_def)
qed

lemma tare_light:
  assumes "dataReads s = 25 * q"
  shows "tare (periodicDevice 25 21) s = Some (True, (samplesDone 10 s)\<lparr>offset := Num (- 8)\<rparr>)"
  using readRawAverage_light[of 10 s q, OF _ assms] by (simp add: tare_def js_mul_def)

lemma tare_load:
  assumes "dataReads s = 25 * q"
  shows "tare (periodicDevice 25 14) s =
     Some (True, (samplesDone 10 s)\<lparr>offset := Num (- 1024)\<rparr>)"
  using readRawAverage_load[of 10 s q, OF _ assms] by (simp add: tare_def js_mul_def)



lemma applyNormalisation_zero_zero:
  "js_is_zero (offset s) \<Longrightarrow> js_is_zero (scale s) \<Longrightarrow> applyNormalisation s (Num 0) = NaN"
  by (cases "offset s"; cases "scale s") (simp_all add: applyNormalisation_def js_add_def js_div_def)


section \<open>The claims\<close>

text \<open>
  Claim C1.  For every 24-bit unsigned pattern \<open>P\<close>: the two sentinels \<open>0x7FFFFF\<close> and
  \<open>0x800000\<close> decode to the failure \<open>InvalidData\<close>; every other pattern decodes to
  \<open>P\<close> when bit 23 is clear and to \<open>-((P XOR 0xFFFFFF) + 1)\<close> when it is set, a value of
  \<open>[-2^23, 2^23 - 1]\<close>; the four values of the specification hold; and a raw read that
  found the device ready, shifted \<open>P\<close> in and came back from the configuration pulses
  returns what \<open>P\<close> decodes to.
\<close>

theorem decode_pattern:
  assumes "0 \<le> P" and "P < 2 ^ 24"
  shows "(P = 0x7FFFFF \<or> P = 0x800000 \<longrightarrow> decode P = Inl InvalidData)
    \<and> (P \<noteq> 0x7FFFFF \<and> P \<noteq> 0x800000 \<longrightarrow>
         decode P = Inr (if bit P 23 then - ((P XOR 0xFFFFFF) + 1) else P)
         \<and> (\<exists>v. decode P = Inr v \<and> - (2 ^ 23) \<le> v \<and> v \<le> 2 ^ 23 - 1))
    \<and> decode 0x000000 = Inr 0 \<and> decode 0xFFFFFE = Inr (- 2)
    \<and> decode 0x000001 = Inr 1 \<and> decode 0x800001 = Inr (- (2 ^ 23 - 1))
    \<and> (\<forall>dev s s1 s2 b s3.
          waitReady dev 0 (clockWrite False s) = (True, s1)
          \<and> shiftBits dev 0 0 s1 = (Some P, s2)
          \<and> setChannelGain dev (channelGain s2) False s2 = Some (b, s3)
          \<longrightarrow> (\<exists>s'. readRaw dev s = Some (decode P, s')))"
proof -
  have a: "P = 0x7FFFFF \<or> P = 0x800000 \<longrightarrow> decode P = Inl InvalidData"
    by (auto simp: decode_def)
  have b: "P \<noteq> 0x7FFFFF \<and> P \<noteq> 0x800000 \<longrightarrow>
         decode P = Inr (if bit P 23 then - ((P XOR 0xFFFFFF) + 1) else P)"
    using assms by (simp add: decode_bits)
  have c: "P \<noteq> 0x7FFFFF \<and> P \<noteq> 0x800000 \<longrightarrow>
         (\<exists>v. decode P = Inr v \<and> - (2 ^ 23) \<le> v \<and> v \<le> 2 ^ 23 - 1)"
    using assms by (auto simp: decode_signed24 signed24_def)
  have d: "decode 0x000000 = Inr 0" "decode 0xFFFFFE = Inr (- 2)"
    "decode 0x000001 = Inr 1" "decode 0x800001 = Inr (- (2 ^ 23 - 1))"
    by (simp_all add: decode_signed24 signed24_def)
  have e: "\<forall>dev s s1 s2 b s3.
          waitReady dev 0 (clockWrite False s) = (True, s1)
          \<and> shiftBits dev 0 0 s1 = (Some P, s2)
          \<and> setChannelGain dev (channelGain s2) False s2 = Some (b, s3)
          \<longrightarrow> (\<exists>s'. readRaw dev s = Some (decode P, s'))"
    using readRaw_unfold by blast
  from a b c d e show ?thesis by blast
qed

theorem decode_pattern_witness:
  "(0 :: int) \<le> 0x800001 \<and> (0x800001 :: int) < 2 ^ 24
   \<and> decode 0x800001 = Inr (- 8388607)
   \<and> decode 0x800000 = Inl InvalidData
   \<and> (\<exists>s'. readRaw edgeDevice (constructed None None) = Some (decode 0x800001, s'))"
proof -
  let ?s = "constructed None None"
  let ?s1 = "advance 1 0 [ClockWrite False] ?s"
  let ?s2 = "advance 25 48 (ClockWrite False # pulses 24) ?s"
  have f: "fastPulses edgeDevice t n" for t n
    by (rule fastPulses_const[where c = 0]) (simp add: edgeDevice_def)
  have w: "waitReady edgeDevice 0 (clockWrite False ?s) = (True, ?s1)"
    using waitReady_ready[of 0 edgeDevice "clockWrite False ?s" 0]
    by (simp add: clockWrite_advance edgeDevice_def constructed_def)
  have sh: "shiftBits edgeDevice 0 0 ?s1 = (Some 0x800001, ?s2)"
    using shiftBits_fast[of edgeDevice ?s1 24 0 0] f pattern_edgeDevice
    by (simp add: pattern_def constructed_def)
  have cg: "setChannelGain edgeDevice (channelGain ?s2) False ?s2 =
      Some (True, advance 0 (2 * timesToPulse (channelGain ?s2) False)
                    (pulses (timesToPulse (channelGain ?s2) False)) ?s2)"
    by (rule setChannelGain_fast) (rule f)
  have a: "(0 :: int) \<le> 0x800001" and b: "(0x800001 :: int) < 2 ^ 24" by simp_all
  have c: "(0 :: int) \<le> 0x800000" and d: "(0x800000 :: int) < 2 ^ 24" by simp_all
  from decode_pattern[OF a b] w sh cg
  have "\<exists>s'. readRaw edgeDevice ?s = Some (decode 0x800001, s')" by blast
  moreover from decode_pattern[OF a b] have "decode 0x800001 = Inr (- 8388607)" by simp
  moreover from decode_pattern[OF c d] have "decode 0x800000 = Inl InvalidData" by simp
  ultimately show ?thesis by simp
qed

text \<open>
  Claim C2.  The claim does not hold of \<open>__readRaw\<close>.  On a device that is ready at once
  and whose first clock pulse takes 60 microseconds, the raw read returns the failure after
  that one pulse and the log line: no configuration pulse is issued.  On the same device
  \<open>__setChannelGain\<close> does re-issue the sequence of a true \<open>isInit\<close>: after its slow
  pulse it polls readiness and sends 1 + 24 pulses.
\<close>

theorem readRaw_slow_pulse_no_resync:
  "readRaw slowPulseDevice (constructed None None) =
     Some (Inl TimingViolation,
           advance 1 2 [ClockWrite False, ClockWrite True, ClockWrite False, LogSlow 60]
             (constructed None None))
   \<and> setChannelGain slowPulseDevice CHANNEL_A_GAIN_128 False (constructed None None) =
     Some (True, advance 1 52 (pulses 1 @ LogSlow 60 # pulses 25) (constructed None None))"
proof
  let ?s = "constructed None None"
  let ?s1 = "advance 1 0 [ClockWrite False] ?s"
  have w: "waitReady slowPulseDevice 0 (clockWrite False ?s) = (True, ?s1)"
    using waitReady_ready[of 0 slowPulseDevice "clockWrite False ?s" 0]
    by (simp add: clockWrite_advance slowPulseDevice_def)
  have sh: "shiftBits slowPulseDevice 0 0 ?s1 =
      (None, advance 1 2 [ClockWrite False, ClockWrite True, ClockWrite False, LogSlow 60] ?s)"
    by (subst shiftBits.simps)
       (simp add: timedPulse_advance emit_advance slowPulseDevice_def constructed_def pulses_def)
  show "readRaw slowPulseDevice ?s =
     Some (Inl TimingViolation,
           advance 1 2 [ClockWrite False, ClockWrite True, ClockWrite False, LogSlow 60] ?s)"
    using w sh by (simp add: readRaw_def)
next
  let ?s = "constructed None None"
  let ?s1 = "advance 0 2 (pulses 1 @ [LogSlow 60]) ?s"
  let ?s2 = "advance 1 2 (pulses 1 @ [LogSlow 60]) ?s"
  have w: "waitUntilReady slowPulseDevice ?s1 = Some ?s2"
    using waitUntilReady_polls[of 0 slowPulseDevice ?s1]
    by (simp add: slowPulseDevice_def)
  have f: "fastPulses slowPulseDevice (timeReads ?s2) 25"
    by (simp add: fastPulses_def slowPulseDevice_def constructed_def)
  have p: "pulseLoop slowPulseDevice CHANNEL_A_GAIN_128 25 0 ?s2 =
      Some (True, advance 0 50 (pulses 25) ?s2)"
    using pulseLoop_fast[OF f, of CHANNEL_A_GAIN_128 0] by simp
  have te: "timedPulse slowPulseDevice ?s = (60, advance 0 2 (pulses 1) ?s)"
    by (simp add: timedPulse_advance slowPulseDevice_def constructed_def)
  have lg: "emit (LogSlow 60) (advance 0 2 (pulses 1) ?s) = ?s1"
    by (simp add: emit_advance)
  have n: "timesToPulse CHANNEL_A_GAIN_128 True = 25"
    by (simp add: timesToPulse_def)
  have "pulseLoop slowPulseDevice CHANNEL_A_GAIN_128 1 0 ?s =
      Some (True, advance 0 50 (pulses 25) ?s2)"
    apply (subst pulseLoop.simps)
    using te lg w n p by simp
  then show "setChannelGain slowPulseDevice CHANNEL_A_GAIN_128 False ?s =
     Some (True, advance 1 52 (pulses 1 @ LogSlow 60 # pulses 25) ?s)"
    by (simp add: setChannelGain_def timesToPulse_def)
qed

text \<open>
  Claim C3.  The claim does not hold at the count 0: \<open>__readRawAverage\<close> replaces only a
  negative count by 1.  With 0 it reads no sample, leaves the object as it is and divides 0
  by 0.
\<close>

theorem readRawAverage_zero_count: "readRawAverage dev 0 s = Some (NaN, s)"
  by (simp add: readRawAverage_def readLoop.simps js_div_zero_zero)




text \<open>
  Claim C5, amended.  The loop of \<open>__begin\<close> calls \<open>read()\<close> first.  When the absolute
  value of the reading is below 0.5 it ends at once, without a call of \<open>tare()\<close>;
  otherwise it calls \<open>tare()\<close> and starts again with \<open>read()\<close>.  A constructor that
  returns has left a finite latest reading of absolute value below 0.5.  No number of
  iterations bounds the loop: on a device that is always ready and fast, and whose every
  eleventh sample is 1024 while the others are 0, the constructor does not return.
\<close>

theorem taringLoop_reads_first:
  "(read dev s = Some (reading, s1) \<and> \<not> js_ge (js_abs reading) (Num (1 / 2)) \<longrightarrow>
      taringLoop dev s = Some (True, s1))
   \<and> (read dev s = Some (reading, s1) \<and> js_ge (js_abs reading) (Num (1 / 2))
        \<and> tare dev s1 = Some (b, s2) \<longrightarrow>
      taringLoop dev s = taringLoop dev s2)
   \<and> (new_HX711 dev scaleArg gainArg = Some (b', s') \<longrightarrow>
        b' \<and> js_finite (latestReading s') \<and> \<bar>js_val (latestReading s')\<bar> < 1 / 2)
   \<and> new_HX711 (periodicDevice 275 14) None None = None"
  using taringLoop_exit[of dev s reading s1] taringLoop_again[of dev s reading s1 b s2]
    new_HX711_below[of dev scaleArg gainArg b' s'] new_HX711_drift
  by blast

theorem taringLoop_reads_first_witness:
  "read (periodicDevice 25 21) (constructed None None) =
     Some (Num (8 / 35), (samplesDone 1 (constructed None None))\<lparr>latestReading := Num (8 / 35)\<rparr>)
   \<and> \<not> js_ge (js_abs (Num (8 / 35))) (Num (1 / 2))
   \<and> taringLoop (periodicDevice 25 21) (constructed None None) =
     Some (True, (samplesDone 1 (constructed None None))\<lparr>latestReading := Num (8 / 35)\<rparr>)
   \<and> read (periodicDevice 25 14) (constructed None None) =
     Some (Num (1024 / 35),
           (samplesDone 1 (constructed None None))\<lparr>latestReading := Num (1024 / 35)\<rparr>)
   \<and> js_ge (js_abs (Num (1024 / 35))) (Num (1 / 2))
   \<and> tare (periodicDevice 25 14)
        ((samplesDone 1 (constructed None None))\<lparr>latestReading := Num (1024 / 35)\<rparr>) =
     Some (True, (samplesDone 10
        ((samplesDone 1 (constructed None None))\<lparr>latestReading := Num (1024 / 35)\<rparr>))
          \<lparr>offset := Num (- 1024)\<rparr>)
   \<and> taringLoop (periodicDevice 25 14) (constructed None None) =
     taringLoop (periodicDevice 25 14)
       ((samplesDone 10
          ((samplesDone 1 (constructed None None))\<lparr>latestReading := Num (1024 / 35)\<rparr>))
            \<lparr>offset := Num (- 1024)\<rparr>)
   \<and> new_HX711 (periodicDevice 25 21) None None =
     Some (True, (samplesDone 1 (constructed None None))\<lparr>latestReading := Num (8 / 35)\<rparr>)
   \<and> js_finite (Num (8 / 35)) \<and> \<bar>js_val (Num (8 / 35))\<bar> < 1 / 2"
proof -
  let ?s = "constructed None None"
  let ?l1 = "(samplesDone 1 ?s)\<lparr>latestReading := Num (8 / 35)\<rparr>"
  let ?h1 = "(samplesDone 1 ?s)\<lparr>latestReading := Num (1024 / 35)\<rparr>"
  let ?h2 = "(samplesDone 10 ?h1)\<lparr>offset := Num (- 1024)\<rparr>"
  have o: "offset ?s = Num 0" and sc: "scale ?s = Num 35" and dr: "dataReads ?s = 25 * 0"
    and cg: "channelGain ?s = CHANNEL_A_GAIN_128"
    by (simp_all add: constructed_def)
  have r1: "read (periodicDevice 25 21) ?s = Some (Num (8 / 35), ?l1)"
    using read_light[OF dr o sc] by simp
  have g1: "\<not> js_ge (js_abs (Num (8 / 35))) (Num (1 / 2))" by (simp add: js_ge_def)
  have r2: "read (periodicDevice 25 14) ?s = Some (Num (1024 / 35), ?h1)"
    using read_load[OF dr o sc] by simp
  have g2: "js_ge (js_abs (Num (1024 / 35))) (Num (1 / 2))" by (simp add: js_ge_def)
  have t2: "tare (periodicDevice 25 14) ?h1 = Some (True, ?h2)"
    by (rule tare_load[of _ 1]) (simp add: constructed_def)
  from taringLoop_reads_first[of "periodicDevice 25 21" ?s "Num (8 / 35)" ?l1] r1 g1
  have a: "taringLoop (periodicDevice 25 21) ?s = Some (True, ?l1)" by blast
  from taringLoop_reads_first[of "periodicDevice 25 14" ?s "Num (1024 / 35)" ?h1 True ?h2]
    r2 g2 t2
  have b: "taringLoop (periodicDevice 25 14) ?s = taringLoop (periodicDevice 25 14) ?h2"
    by blast
  have n: "new_HX711 (periodicDevice 25 21) None None = Some (True, ?l1)"
    using a cg by (simp add: new_HX711_def hx_begin_def)
  from taringLoop_reads_first[where dev = "periodicDevice 25 21" and scaleArg = None
      and gainArg = None and b' = True and s' = ?l1] n
  have c: "js_finite (latestReading ?l1) \<and> \<bar>js_val (latestReading ?l1)\<bar> < 1 / 2" by blast
  from r1 g1 a r2 g2 t2 b n c show ?thesis by simp
qed

text \<open>
  Claim C5 as stated fails on the order of the calls.  On a device whose samples are all 8
  the first reading is 8 / 35, below 0.5: the constructor ends after that one raw read and
  \<open>__offset\<close> is still 0.  Calling \<open>tare()\<close> and then \<open>read()\<close>, as the claim words
  it, takes eleven raw reads and leaves \<open>__offset\<close> at -8 and the reading at 0.
\<close>

theorem taringLoop_reads_first_counterexample:
  "new_HX711 (periodicDevice 25 21) None None =
     Some (True, (samplesDone 1 (constructed None None))\<lparr>latestReading := Num (8 / 35)\<rparr>)
   \<and> taringLoop_spec (periodicDevice 25 21) (constructed None None) =
     Some (True, (samplesDone 1 ((samplesDone 10 (constructed None None))\<lparr>offset := Num (- 8)\<rparr>))
                   \<lparr>latestReading := Num 0\<rparr>)
   \<and> offset ((samplesDone 1 (constructed None None))\<lparr>latestReading := Num (8 / 35)\<rparr>) = Num 0
   \<and> dataReads ((samplesDone 1 (constructed None None))\<lparr>latestReading := Num (8 / 35)\<rparr>) = 25
   \<and> offset ((samplesDone 1 ((samplesDone 10 (constructed None None))\<lparr>offset := Num (- 8)\<rparr>))
                   \<lparr>latestReading := Num 0\<rparr>) = Num (- 8)
   \<and> dataReads ((samplesDone 1 ((samplesDone 10 (constructed None None))\<lparr>offset := Num (- 8)\<rparr>))
                   \<lparr>latestReading := Num 0\<rparr>) = 275"
proof -
  let ?s = "constructed None None"
  let ?l1 = "(samplesDone 1 ?s)\<lparr>latestReading := Num (8 / 35)\<rparr>"
  let ?t = "(samplesDone 10 ?s)\<lparr>offset := Num (- 8)\<rparr>"
  let ?t1 = "(samplesDone 1 ?t)\<lparr>latestReading := Num 0\<rparr>"
  have o: "offset ?s = Num 0" and sc: "scale ?s = Num 35" and dr: "dataReads ?s = 25 * 0"
    and cg: "channelGain ?s = CHANNEL_A_GAIN_128"
    by (simp_all add: constructed_def)
  have r1: "read (periodicDevice 25 21) ?s = Some (Num (8 / 35), ?l1)"
    using read_light[OF dr o sc] by simp
  have g1: "\<not> js_ge (js_abs (Num (8 / 35))) (Num (1 / 2))" by (simp add: js_ge_def)
  have n: "new_HX711 (periodicDevice 25 21) None None = Some (True, ?l1)"
    using taringLoop_exit[OF r1 g1] cg by (simp add: new_HX711_def hx_begin_def)
  have t: "tare (periodicDevice 25 21) ?s = Some (True, ?t)"
    by (rule tare_light[OF dr])
  have r2: "read (periodicDevice 25 21) ?t = Some (Num 0, ?t1)"
    using read_light[of ?t 10 "- 8"] by (simp add: constructed_def)
  have g2: "\<not> js_ge (js_abs (Num 0)) (Num (1 / 2))" by (simp add: js_ge_def)
  have sp: "taringLoop_spec (periodicDevice 25 21) ?s = Some (True, ?t1)"
    apply (subst taringLoop_spec.simps)
    using t r2 g2 by simp
  from n sp show ?thesis by (simp add: constructed_def)
qed

text \<open>
  Claim C6.  The readiness loop of a raw read polls the data line at most 10000 times and
  sleeps one millisecond after each poll that found the line high: it ends ready after
  \<open>j \<le> 9999\<close> sleeps, or not ready after exactly 10000 polls and sleeps.  When the
  line is high at each of the next 10000 polls, the raw read returns the failure
  \<open>NotReady\<close>: it does not block.
\<close>

theorem readRaw_not_ready:
  "(\<forall>dev c s r s'. waitReady dev c s = (r, s') \<longrightarrow> c \<le> 9999 \<longrightarrow>
       (\<exists>j. s' = advance (if r then Suc j else j) 0 (replicate j (Msleep 1)) s
            \<and> (if r then j \<le> 9999 - c else j = 10000 - c)))
   \<and> (\<forall>(dev::device) s. (\<forall>k<10000. dataLevel dev (dataReads s + k)) \<longrightarrow>
         readRaw dev s =
           Some (Inl NotReady,
                 advance 10000 0 (ClockWrite False # replicate 10000 (Msleep 1)) s))"
proof (intro conjI allI impI)
  fix dev c s r s'
  show "waitReady dev c s = (r, s') \<Longrightarrow> c \<le> 9999 \<Longrightarrow>
       (\<exists>j. s' = advance (if r then Suc j else j) 0 (replicate j (Msleep 1)) s
            \<and> (if r then j \<le> 9999 - c else j = 10000 - c))"
  proof (induction dev c s rule: waitReady.induct)
    case (1 dev c s)
    show ?case
    proof (cases "dataLevel dev (dataReads s)")
      case False
      with "1.prems" have "r" "s' = advance 1 0 [] s"
        by (subst (asm) waitReady.simps, simp add: isReady_advance)+
      then show ?thesis by (intro exI[of _ 0]) simp
    next
      case True
      let ?s = "msleep 1 (advance 1 0 [] s)"
      show ?thesis
      proof (cases "c \<ge> 9999")
        case True
        with \<open>dataLevel dev (dataReads s)\<close> "1.prems"
        have "\<not> r" "s' = ?s"
          by (subst (asm) waitReady.simps, simp add: isReady_advance)+
        with True "1.prems"(2) show ?thesis
          by (intro exI[of _ 1]) (simp add: msleep_advance)
      next
        case False
        with True "1.prems" have rec: "waitReady dev (c + 1) ?s = (r, s')"
          by (subst (asm) waitReady.simps) (simp add: isReady_advance)
        from False have c1: "c + 1 \<le> 9999" by simp
        have "\<exists>j. s' = advance (if r then Suc j else j) 0 (replicate j (Msleep 1)) ?s
            \<and> (if r then j \<le> 9999 - (c + 1) else j = 10000 - (c + 1))"
          using True False by (intro "1.IH"[OF _ _ _ _ _ rec c1]) (simp_all add: isReady_advance)
        then obtain j where j: "s' = advance (if r then Suc j else j) 0 (replicate j (Msleep 1)) ?s"
          "if r then j \<le> 9999 - (c + 1) else j = 10000 - (c + 1)" by blast
        from j False show ?thesis
          by (intro exI[of _ "Suc j"])
             (auto simp: msleep_advance replicate_app_Cons_same split: if_splits)
      qed
    qed
  qed
next
  fix dev :: device and s :: hx711
  assume nr: "\<forall>k<10000. dataLevel dev (dataReads s + k)"
  have "waitReady dev 0 (clockWrite False s) =
          (False, advance 10000 0 (replicate 10000 (Msleep 1)) (clockWrite False s))"
    using nr by (intro waitReady_never) (simp_all add: clockWrite_advance)
  then show "readRaw dev s =
           Some (Inl NotReady,
                 advance 10000 0 (ClockWrite False # replicate 10000 (Msleep 1)) s)"
    by (simp add: readRaw_def clockWrite_advance)
qed

theorem readRaw_not_ready_witness:
  "waitReady lateDevice 0 (constructed None None) =
     (True, advance 3 0 (replicate 2 (Msleep 1)) (constructed None None))
   \<and> (0 :: nat) \<le> 9999 \<and> (2 :: nat) \<le> 9999 - 0
   \<and> dataLevel busyDevice (dataReads (constructed None None) + 9999)
   \<and> readRaw busyDevice (constructed None None) =
     Some (Inl NotReady,
           advance 10000 0 (ClockWrite False # replicate 10000 (Msleep 1)) (constructed None None))"
proof -
  have w: "waitReady lateDevice 0 (constructed None None) =
     (True, advance 3 0 (replicate 2 (Msleep 1)) (constructed None None))"
    using waitReady_ready[of 2 lateDevice "constructed None None" 0]
    by (simp add: lateDevice_def constructed_def numeral_2_eq_2 numeral_3_eq_3)
  have b: "\<forall>k<10000. dataLevel busyDevice (dataReads (constructed None None) + k)"
    by (simp add: busyDevice_def)
  from readRaw_not_ready b
  have "readRaw busyDevice (constructed None None) =
     Some (Inl NotReady,
           advance 10000 0 (ClockWrite False # replicate 10000 (Msleep 1)) (constructed None None))"
    by blast
  with w b show ?thesis by (simp add: busyDevice_def)
qed




text \<open>
  Claim C8, amended.  Once \<open>__readRawAverage(10)\<close> has returned the average of its ten samples,
  \<open>tare\<close> returns \<open>true\<close> with \<open>__offset\<close> set to \<open>-1\<close> times that average,
  its negation; and while \<open>__scale\<close> is a number other than zero,
  \<open>__applyNormalisation\<close> of that same average is then zero.
\<close>

theorem tare_sets_offset:
  assumes "readRawAverage dev 10 s = Some (avg, s1)"
  shows "tare dev s = Some (True, s1\<lparr>offset := js_mul (Num (- 1)) avg\<rparr>)
     \<and> (\<exists>R. avg = Num R \<and> js_mul (Num (- 1)) avg = (if R = 0 then NegZero else Num (- R)))
     \<and> (js_truthy (scale s) \<longrightarrow>
          js_eq (applyNormalisation (s1\<lparr>offset := js_mul (Num (- 1)) avg\<rparr>) avg) (Num 0))"
proof -
  from readRawAverage_finite[OF assms] obtain R where R: "avg = Num R" by auto
  have neg': "js_mul (Num (- 1)) (Num R) = (if R = 0 then NegZero else Num (- R))"
    by (simp add: js_mul_def js_zero_def)
  then have neg: "js_mul (Num (- 1)) avg = (if R = 0 then NegZero else Num (- R))"
    by (simp add: R)
  have sc: "scale s1 = scale s"
    using ioOnly_fields[OF readRawAverage_io[OF assms]] by simp
  have num: "js_add avg (js_mul (Num (- 1)) avg) = Num 0"
    unfolding neg by (simp add: R js_add_def)
  have "js_truthy (scale s) \<longrightarrow>
          js_eq (applyNormalisation (s1\<lparr>offset := js_mul (Num (- 1)) avg\<rparr>) avg) (Num 0)"
    by (cases "scale s")
       (simp_all add: applyNormalisation_def num sc js_truthy_def js_div_def js_eq_def
          js_zero_def)
  with assms R neg show ?thesis by (simp add: tare_def)
qed

theorem tare_sets_offset_witness:
  "readRawAverage (periodicDevice 25 14) 10 (constructed None None) =
     Some (Num 1024, samplesDone 10 (constructed None None))
   \<and> tare (periodicDevice 25 14) (constructed None None) =
     Some (True, (samplesDone 10 (constructed None None))\<lparr>offset := Num (- 1024)\<rparr>)
   \<and> js_truthy (scale (constructed None None))
   \<and> js_eq (applyNormalisation
              ((samplesDone 10 (constructed None None))\<lparr>offset := Num (- 1024)\<rparr>) (Num 1024))
        (Num 0)"
proof -
  let ?s = "constructed None None"
  have dr: "dataReads ?s = 25 * 0" by (simp add: constructed_def)
  have r: "readRawAverage (periodicDevice 25 14) 10 ?s = Some (Num 1024, samplesDone 10 ?s)"
    using readRawAverage_load[of 10 ?s 0, OF _ dr] by simp
  have t: "js_truthy (scale ?s)" by (simp add: constructed_def js_truthy_def)
  have m: "js_mul (Num (- 1)) (Num 1024) = Num (- 1024)" by (simp add: js_mul_def)
  from tare_sets_offset[OF r] r t show ?thesis unfolding m by blast
qed

text \<open>
  Claim C8 as stated fails when \<open>__scale\<close> is zero.  On a device whose samples are all 0,
  \<open>calibrateScale(1)\<close> on a new object sets the scale to 0; \<open>tare()\<close> then returns
  \<open>true\<close> with the offset \<open>-0\<close>, and \<open>__applyNormalisation\<close> of the average 0 it
  read is \<open>0 / 0\<close>, that is \<open>NaN\<close> and not 0.
\<close>

theorem tare_sets_offset_counterexample:
  "calibrateScale idleDevice (Num 1) (constructed None None) =
     Some (Num 0, (samplesDone 5 (constructed None None))\<lparr>scale := Num 0\<rparr>)
   \<and> readRawAverage idleDevice 10 ((samplesDone 5 (constructed None None))\<lparr>scale := Num 0\<rparr>) =
     Some (Num 0, samplesDone 10 ((samplesDone 5 (constructed None None))\<lparr>scale := Num 0\<rparr>))
   \<and> tare idleDevice ((samplesDone 5 (constructed None None))\<lparr>scale := Num 0\<rparr>) =
     Some (True, (samplesDone 10 ((samplesDone 5 (constructed None None))\<lparr>scale := Num 0\<rparr>))
                   \<lparr>offset := NegZero\<rparr>)
   \<and> applyNormalisation
        ((samplesDone 10 ((samplesDone 5 (constructed None None))\<lparr>scale := Num 0\<rparr>))
           \<lparr>offset := NegZero\<rparr>) (Num 0) = NaN
   \<and> \<not> js_eq NaN (Num 0)"
proof -
  let ?s = "constructed None None"
  let ?s2 = "(samplesDone 5 ?s)\<lparr>scale := Num 0\<rparr>"
  let ?s3 = "(samplesDone 10 ?s2)\<lparr>offset := NegZero\<rparr>"
  have o: "offset ?s = Num 0" by (simp add: constructed_def)
  have c: "calibrateScale idleDevice (Num 1) ?s = Some (Num 0, ?s2)"
    using readRawAverage_idle[of 5 ?s] o
    by (simp add: calibrateScale_def js_add_def js_div_def js_zero_def)
  have r: "readRawAverage idleDevice 10 ?s2 = Some (Num 0, samplesDone 10 ?s2)"
    using readRawAverage_idle[of 10 ?s2] by simp
  have t: "tare idleDevice ?s2 = Some (True, ?s3)"
    using r by (simp add: tare_def js_mul_def js_zero_def)
  have n: "applyNormalisation ?s3 (Num 0) = NaN"
    by (rule applyNormalisation_zero_zero) simp_all
  from c r t n show ?thesis by (simp add: js_eq_def)
qed

text \<open>
  Claim C9.  No operation but \<open>tare\<close> changes \<open>__offset\<close> and none but
  \<open>calibrateScale\<close> changes \<open>__scale\<close>: a raw read, the configuration pulses,
  \<open>__readRawAverage\<close>, \<open>readAverage\<close> and \<open>read\<close> leave both as they are,
  \<open>tare\<close> leaves \<open>__scale\<close>, \<open>calibrateScale\<close> leaves \<open>__offset\<close>, and
  \<open>__begin\<close>, which tares, leaves \<open>__scale\<close>.
\<close>

theorem offset_scale_frame:
  "(readRaw dev s = Some (r, s') \<longrightarrow> offset s' = offset s \<and> scale s' = scale s)
   \<and> (setChannelGain dev g isInit s = Some (b, s') \<longrightarrow> offset s' = offset s \<and> scale s' = scale s)
   \<and> (readRawAverage dev n s = Some (a, s') \<longrightarrow> offset s' = offset s \<and> scale s' = scale s)
   \<and> (readAverage dev n s = Some (a, s') \<longrightarrow> offset s' = offset s \<and> scale s' = scale s)
   \<and> (read dev s = Some (a, s') \<longrightarrow> offset s' = offset s \<and> scale s' = scale s)
   \<and> (tare dev s = Some (b, s') \<longrightarrow> scale s' = scale s)
   \<and> (calibrateScale dev w s = Some (a, s') \<longrightarrow> offset s' = offset s)
   \<and> (hx_begin dev s = Some (b, s') \<longrightarrow> scale s' = scale s)"
proof (intro conjI impI)
  assume "readRaw dev s = Some (r, s')"
  from ioOnly_fields[OF readRaw_io[OF this]]
  show "offset s' = offset s" "scale s' = scale s" by simp_all
next
  assume "setChannelGain dev g isInit s = Some (b, s')"
  from setChannelGain_io[OF this] have "ioOnly s s'" by simp
  from ioOnly_fields[OF this]
  show "offset s' = offset s" "scale s' = scale s" by simp_all
next
  assume "readRawAverage dev n s = Some (a, s')"
  from ioOnly_fields[OF readRawAverage_io[OF this]]
  show "offset s' = offset s" "scale s' = scale s" by simp_all
next
  assume "readAverage dev n s = Some (a, s')"
  from readAverage_frame[OF this]
  show "offset s' = offset s" "scale s' = scale s" by simp_all
next
  assume "read dev s = Some (a, s')"
  then have "readAverage dev 1 s = Some (a, s')" by (simp add: read_def)
  from readAverage_frame[OF this]
  show "offset s' = offset s" "scale s' = scale s" by simp_all
next
  assume "tare dev s = Some (b, s')"
  from tare_frame[OF this] show "scale s' = scale s" by simp
next
  assume "calibrateScale dev w s = Some (a, s')"
  from calibrateScale_frame[OF this] show "offset s' = offset s" by simp
next
  assume "hx_begin dev s = Some (b, s')"
  from hx_begin_frame[OF this] show "scale s' = scale s" by simp
qed

theorem offset_scale_frame_witness:
  "readRaw idleDevice (constructed None None) = Some (Inr 0, rawDone (constructed None None))
   \<and> offset (rawDone (constructed None None)) = offset (constructed None None)
   \<and> scale (rawDone (constructed None None)) = scale (constructed None None)
   \<and> setChannelGain idleDevice CHANNEL_B_GAIN_32 False (constructed None None) =
       Some (True, advance 0 4 (pulses 2) (constructed None None))
   \<and> readRawAverage idleDevice 3 (constructed None None) =
       Some (Num 0, samplesDone 3 (constructed None None))
   \<and> readAverage idleDevice 3 (constructed None None) =
       Some (Num 0, (samplesDone 3 (constructed None None))\<lparr>latestReading := Num 0\<rparr>)
   \<and> read idleDevice (constructed None None) =
       Some (Num 0, (samplesDone 1 (constructed None None))\<lparr>latestReading := Num 0\<rparr>)
   \<and> tare (periodicDevice 25 14) (constructed None None) =
       Some (True, (samplesDone 10 (constructed None None))\<lparr>offset := Num (- 1024)\<rparr>)
   \<and> scale ((samplesDone 10 (constructed None None))\<lparr>offset := Num (- 1024)\<rparr>) =
       scale (constructed None None)
   \<and> calibrateScale (periodicDevice 25 14) (Num 2) (constructed None None) =
       Some (Num 512, (samplesDone 5 (constructed None None))\<lparr>scale := Num 512\<rparr>)
   \<and> offset ((samplesDone 5 (constructed None None))\<lparr>scale := Num 512\<rparr>) =
       offset (constructed None None)
   \<and> hx_begin idleDevice (constructed None None) =
       Some (True, (samplesDone 1 (constructed None None))\<lparr>latestReading := Num 0\<rparr>)
   \<and> scale ((samplesDone 1 (constructed None None))\<lparr>latestReading := Num 0\<rparr>) =
       scale (constructed None None)"
proof -
  let ?s = "constructed None None"
  have o: "offset ?s = Num 0" and sc: "scale ?s = Num 35" and dr: "dataReads ?s = 25 * 0"
    and cg: "channelGain ?s = CHANNEL_A_GAIN_128"
    by (simp_all add: constructed_def)
  have A: "readRaw idleDevice ?s = Some (Inr 0, rawDone ?s)" by (rule readRaw_idle)
  have B: "setChannelGain idleDevice CHANNEL_B_GAIN_32 False ?s =
       Some (True, advance 0 4 (pulses 2) ?s)"
    using setChannelGain_fast[OF steadyClock_fast[OF steadyClock_idle],
        where s = ?s and g = CHANNEL_B_GAIN_32]
    by (simp add: timesToPulse_def)
  have C: "readRawAverage idleDevice 3 ?s = Some (Num 0, samplesDone 3 ?s)"
    using readRawAverage_idle[of 3 ?s] by simp
  have D: "readAverage idleDevice 3 ?s =
       Some (Num 0, (samplesDone 3 ?s)\<lparr>latestReading := Num 0\<rparr>)"
    using readAverage_idle[of 3 ?s, OF _ o sc] by simp
  have E: "read idleDevice ?s = Some (Num 0, (samplesDone 1 ?s)\<lparr>latestReading := Num 0\<rparr>)"
    using readAverage_idle[of 1 ?s, OF _ o sc] by (simp add: read_def)
  have F: "tare (periodicDevice 25 14) ?s =
       Some (True, (samplesDone 10 ?s)\<lparr>offset := Num (- 1024)\<rparr>)"
    using readRawAverage_load[of 10 ?s 0, OF _ dr] by (simp add: tare_def js_mul_def)
  have G: "calibrateScale (periodicDevice 25 14) (Num 2) ?s =
       Some (Num 512, (samplesDone 5 ?s)\<lparr>scale := Num 512\<rparr>)"
    using readRawAverage_load[of 5 ?s 0, OF _ dr] o
    by (simp add: calibrateScale_def js_add_def js_div_def)
  have H: "hx_begin idleDevice ?s =
       Some (True, (samplesDone 1 ?s)\<lparr>latestReading := Num 0\<rparr>)"
    using taringLoop_idle[OF o sc] cg by (simp add: hx_begin_def)
  from offset_scale_frame[of idleDevice ?s "Inr 0" "rawDone ?s"] A
  have 1: "offset (rawDone ?s) = offset ?s \<and> scale (rawDone ?s) = scale ?s" by blast
  from offset_scale_frame[where dev = "periodicDevice 25 14" and s = ?s and b = True
      and s' = "(samplesDone 10 ?s)\<lparr>offset := Num (- 1024)\<rparr>"] F
  have 2: "scale ((samplesDone 10 ?s)\<lparr>offset := Num (- 1024)\<rparr>) = scale ?s" by blast
  from offset_scale_frame[where dev = "periodicDevice 25 14" and s = ?s and a = "Num 512"
      and w = "Num 2" and s' = "(samplesDone 5 ?s)\<lparr>scale := Num 512\<rparr>"] G
  have 3: "offset ((samplesDone 5 ?s)\<lparr>scale := Num 512\<rparr>) = offset ?s" by blast
  from offset_scale_frame[where dev = idleDevice and s = ?s and b = True
      and s' = "(samplesDone 1 ?s)\<lparr>latestReading := Num 0\<rparr>"] H
  have 4: "scale ((samplesDone 1 ?s)\<lparr>latestReading := Num 0\<rparr>) = scale ?s" by blast
  from A B C D E F G H 1 2 3 4 show ?thesis by blast
qed

text \<open>
  Claim C10.  A raw read that returns a sample returns one of \<open>[-(2^23 - 1), 2^23 - 2]\<close>:
  the patterns of the two extreme values are the two sentinels, which are rejected.
\<close>

theorem readRaw_sample_inner_range:
  assumes "readRaw dev s = Some (Inr v, s')"
  shows "- (2 ^ 23 - 1) \<le> v \<and> v \<le> 2 ^ 23 - 2"
proof -
  from readRaw_sample[OF assms] obtain P where
    "0 \<le> P" "P < 2 ^ 24" "P \<noteq> 0x7fffff" "P \<noteq> 0x800000" "v = signed24 P"
    by blast
  then show ?thesis by (auto simp: signed24_def)
qed

theorem readRaw_sample_inner_range_witness:
  "readRaw edgeDevice (constructed None None) =
     Some (Inr (- 8388607), rawDone (constructed None None))
   \<and> - (2 ^ 23 - 1) \<le> (- 8388607 :: int) \<and> (- 8388607 :: int) \<le> 2 ^ 23 - 2"
  using readRaw_sample_inner_range[OF readRaw_edgeDevice] readRaw_edgeDevice by simp

end
